theory Spec2Isabelle
  imports Main "HOL-Library.Sublist" "HOL-Library.Multiset"
begin

section \<open>The parallel file-system walker of \<^verbatim>\<open>pwalk_core.c\<close>\<close>

text \<open>
  A shallow embedding of \<^verbatim>\<open>src/pwalk_ext/pwalk_core.c\<close>. The C program is a pool of
  POSIX threads over module-level variables; the embedding is

  \<^item> a record \<open>gstate\<close> of the module-level variables (\<open>ThreadCNT\<close>, \<open>totalTHRDS\<close>,
    \<open>tdslot\<close>, \<open>buffers\<close>, \<open>output_file\<close>, \<open>SNAPSHOT\<close>, \<open>zstd_stream\<close>) together with
    the call stacks of the running worker threads;
  \<^item> the functions \<open>flush_buffer\<close>, \<open>csv_escape\<close>, \<open>write_record\<close> as state transformers;
  \<^item> \<open>traverse\<close> as a step function: one call of \<open>step\<close> lets one worker thread
    perform one action (open its directory, one iteration of the \<open>readdir\<close> loop,
    the summary record, the flush of the clean-up block, the release of its slot). A
    schedule is the list of the threads that move, so every interleaving of the
    workers at the granularity of their critical sections is a run of the model;
  \<^item> \<open>csv_write\<close> as the initialisation, the polling loop driven by the schedule, and
    the finalisation.

  The operating system is a parameter (\<open>sys\<close>): what \<open>opendir\<close>, \<open>lstat\<close> and \<open>fopen\<close>
  answer, and what the streaming compressor emits. The file system does not change
  during a walk.

  C integers are modelled by \<open>nat\<close> and \<open>int\<close>: no counter of the program comes near
  its width on an input it can receive. Undefined behaviour of the C code (a copy past
  the end of a fixed array, a write to a closed stream) is recorded in the field
  \<open>faults\<close> of the state; a run is meaningful while that set is empty.
\<close>

subsection \<open>Constants\<close>

definition MAXTHRDS :: nat where
  "MAXTHRDS = 32"

definition MAXPATH :: nat where
  "MAXPATH = 4096"

definition BUFFER_SIZE :: nat where
  "BUFFER_SIZE = 512 * 1024"

definition max_iterations :: nat where
  "max_iterations = 3600"

definition dquote :: char where
  "dquote = CHR 0x22"

definition newline :: char where
  "newline = CHR 0x0A"

definition NUL :: char where
  "NUL = CHR 0x00"

definition header :: string where
  "header = ''inode,parent-inode,directory-depth,'' @ [dquote] @ ''filename'' @ [dquote] @ '','' @
            [dquote] @ ''fileExtension'' @ [dquote] @ '','' @
            ''UID,GID,st_size,st_dev,st_blocks,st_nlink,'' @ [dquote] @ ''st_mode'' @ [dquote] @ '','' @
            ''st_atime,st_mtime,st_ctime,pw_fcount,pw_dirsum'' @ [newline]"

subsection \<open>Data\<close>

text \<open>\<^verbatim>\<open>struct stat\<close>, the fields the program reads.\<close>

record stat =
  st_ino :: nat
  st_mode :: nat
  st_uid :: nat
  st_gid :: nat
  st_size :: int
  st_dev :: nat
  st_blocks :: int
  st_nlink :: nat
  st_atime :: int
  st_mtime :: int
  st_ctime :: int

text \<open>\<^verbatim>\<open>S_ISDIR(m)\<close> is \<^verbatim>\<open>(m & 0170000) == 0040000\<close>: bits 12 to 15 hold the file type.\<close>

definition S_ISDIR :: "nat \<Rightarrow> bool" where
  "S_ISDIR m = ((m div 4096) mod 16 = 4)"

text \<open>
  \<^verbatim>\<open>ThreadBuffer\<close>. \<open>csv_buffer\<close> holds the bytes of the array from index 0; only its
  first \<open>used\<close> bytes are ever read, so the stale bytes behind them are not kept.
\<close>

record ThreadBuffer =
  csv_buffer :: string
  used :: nat

text \<open>
  \<^verbatim>\<open>struct threadData\<close>. \<open>buf\<close> points into \<open>buffers\<close> and is the index of the cell.
  \<open>thread_id\<close> and \<open>tattr\<close> are written and never read.
\<close>

record threadData =
  dname :: string
  pinode :: nat
  depth :: int
  THRDid :: int
  flag :: int
  pstat :: stat
  buf :: nat

text \<open>
  The sink: a \<^verbatim>\<open>FILE\<close> opened for writing. \<open>fcap\<close> is the number of bytes the device
  accepts before writes fail, \<open>ferror\<close> the stream's error indicator.
\<close>

record FILE =
  fdata :: string
  fcap :: nat
  ferror :: bool
  fclosed :: bool

text \<open>A directory stream: the entries \<open>readdir\<close> returns, and the position.\<close>

record DIR =
  d_ents :: "string list"
  d_pos :: nat

text \<open>
  The argument \<open>cur\<close> of \<open>traverse\<close> points either at a slot of \<open>tdslot\<close> or at the
  variable \<open>local\<close> of the calling invocation; \<open>local\<close> is not written while the
  callee runs, so the pointer carries its value.
\<close>

datatype tdref = Slot nat | Local threadData

text \<open>The program points of \<open>traverse\<close> at which a thread can be scheduled.\<close>

datatype ppoint = AtOpen | InLoop | AtCleanup | AtRelease

text \<open>One invocation of \<open>traverse\<close>: its argument and its local variables.\<close>

record frame =
  cur :: tdref
  pc :: ppoint
  dirp :: DIR
  localCnt :: int
  localSz :: int

text \<open>
  Undefined behaviour the C code can run into: \<open>csv_escape\<close> writing past \<open>esc_name\<close>
  or \<open>esc_ext\<close>, \<open>memcpy\<close> writing past the cell, \<open>strcpy\<close> writing past \<open>dname\<close>,
  \<open>fwrite\<close> or \<open>fclose\<close> on a null or closed stream. \<open>LineTruncated\<close>: \<open>snprintf\<close> had to
  cut the line, so the bytes \<open>memcpy\<close> takes are not the line (and lie behind the array
  \<open>line\<close> when the line is longer than it).
\<close>

datatype fault =
    EscNameOverflow
  | EscExtOverflow
  | LineTruncated
  | CellOverrun
  | DnameOverflow
  | BadStream

text \<open>
  The log of the calls a run makes: \<open>opendir\<close> with its outcome, \<open>write_record\<close> with
  its arguments (the cell first; logged when the line has been copied into the cell),
  the bytes a non-empty cell hands to \<open>flush_buffer\<close>,
  \<open>ZSTD_compressStream2\<close> with its input and output, \<open>fwrite\<close> with its bytes. No
  function of the model reads the log.
\<close>

datatype event =
    EvOpendir string bool
  | EvRecord nat string stat nat int int int
  | EvFlush nat string
  | EvCompress string string
  | EvFwrite string

text \<open>
  The module-level variables, the call stacks of the worker threads (\<open>stacks s ! k\<close> is
  the stack of the thread started on \<open>tdslot[k]\<close>, innermost invocation first, and is
  empty when no such thread runs), the faults and the log. \<open>zstd_stream\<close> holds the
  inputs the compression stream has consumed.
\<close>

record gstate =
  ThreadCNT :: int
  totalTHRDS :: int
  tdslot :: "threadData list"
  buffers :: "ThreadBuffer list"
  output_file :: "FILE option"
  SNAPSHOT :: int
  zstd_stream :: "string list option"
  stacks :: "frame list list"
  faults :: "fault set"
  trace :: "event list"

text \<open>
  The environment. \<open>fs_fopen\<close> gives the capacity of the created file, or \<open>None\<close> when
  \<open>fopen\<close> fails. \<open>have_zstd\<close> is the compile-time macro \<^verbatim>\<open>HAVE_ZSTD\<close>;
  \<open>zstd_create_ok\<close> tells whether \<^verbatim>\<open>ZSTD_createCStream\<close> returns a stream;
  \<open>zstd_out z input fin\<close> is what \<^verbatim>\<open>ZSTD_compressStream2\<close> emits for \<open>input\<close> after the
  inputs \<open>z\<close>, with the directive \<^verbatim>\<open>ZSTD_e_end\<close> when \<open>fin\<close> and \<^verbatim>\<open>ZSTD_e_continue\<close>
  otherwise.
\<close>

record sys =
  fs_opendir :: "string \<Rightarrow> string list option"
  fs_lstat :: "string \<Rightarrow> stat option"
  fs_fopen :: "string \<Rightarrow> nat option"
  have_zstd :: bool
  zstd_create_ok :: bool
  zstd_out :: "string list \<Rightarrow> string \<Rightarrow> bool \<Rightarrow> string"

subsection \<open>Formatting\<close>

text \<open>\<^verbatim>\<open>%lu\<close>, \<^verbatim>\<open>%u\<close>: decimal digits of an unsigned number.\<close>

function dec :: "nat \<Rightarrow> string" where
  "dec n = (if n < 10 then [''0123456789'' ! n] else dec (n div 10) @ [''0123456789'' ! (n mod 10)])"
  by pat_completeness auto
termination
  by (relation "measure id") auto

declare dec.simps [simp del]

text \<open>\<^verbatim>\<open>%o\<close>: octal digits.\<close>

function oct :: "nat \<Rightarrow> string" where
  "oct n = (if n < 8 then [''01234567'' ! n] else oct (n div 8) @ [''01234567'' ! (n mod 8)])"
  by pat_completeness auto
termination
  by (relation "measure id") auto

declare oct.simps [simp del]

text \<open>\<^verbatim>\<open>%ld\<close>, \<^verbatim>\<open>%d\<close>: a signed decimal number.\<close>

definition sdec :: "int \<Rightarrow> string" where
  "sdec i = (if i < 0 then CHR ''-'' # dec (nat (- i)) else dec (nat i))"

text \<open>\<open>csv_escape\<close>: every double quote is doubled.\<close>

fun csv_escape :: "string \<Rightarrow> string" where
  "csv_escape [] = []"
| "csv_escape (c # cs) = (if c = dquote then dquote # dquote # csv_escape cs else c # csv_escape cs)"

text \<open>
  \<^verbatim>\<open>strrchr(s, c)\<close>: the suffix of \<open>s\<close> that starts at the last occurrence of \<open>c\<close>, or
  \<open>None\<close> (the null pointer) when \<open>c\<close> does not occur.
\<close>

fun strrchr :: "string \<Rightarrow> char \<Rightarrow> string option" where
  "strrchr [] c = None"
| "strrchr (x # xs) c =
     (case strrchr xs c of
        Some r \<Rightarrow> Some r
      | None \<Rightarrow> if x = c then Some (x # xs) else None)"

text \<open>
  The first two statements of \<open>write_record\<close>:
  \<^verbatim>\<open>filename = strrchr(path, '/'); filename = filename ? filename + 1 : path;\<close>
\<close>

definition filename_of :: "string \<Rightarrow> string" where
  "filename_of path = (case strrchr path CHR ''/'' of Some r \<Rightarrow> tl r | None \<Rightarrow> path)"

text \<open>
  \<^verbatim>\<open>ext = strrchr(filename, '.'); ext = (ext && ext > filename) ? ext + 1 : "";\<close>
  The pointer \<open>ext\<close> is greater than \<open>filename\<close> when the suffix found is a proper one.
\<close>

definition ext_of :: "string \<Rightarrow> string" where
  "ext_of filename =
     (case strrchr filename CHR ''.'' of
        Some r \<Rightarrow> if length r < length filename then tl r else []
      | None \<Rightarrow> [])"

text \<open>The \<^verbatim>\<open>snprintf\<close> format of \<open>write_record\<close>, applied to the escaped name and extension.\<close>

definition fmt_line :: "string \<Rightarrow> string \<Rightarrow> stat \<Rightarrow> nat \<Rightarrow> int \<Rightarrow> int \<Rightarrow> int \<Rightarrow> string" where
  "fmt_line esc_name esc_ext st parent_inode dep fcount dirsum =
     dec (st_ino st) @ '','' @ dec parent_inode @ '','' @ sdec dep @ '','' @
     [dquote] @ esc_name @ [dquote] @ '','' @ [dquote] @ esc_ext @ [dquote] @ '','' @
     dec (st_uid st) @ '','' @ dec (st_gid st) @ '','' @ sdec (st_size st) @ '','' @
     dec (st_dev st) @ '','' @ sdec (st_blocks st) @ '','' @ dec (st_nlink st) @ '','' @
     [dquote] @ oct (st_mode st) @ [dquote] @ '','' @
     sdec (st_atime st) @ '','' @ sdec (st_mtime st) @ '','' @ sdec (st_ctime st) @ '','' @
     sdec fcount @ '','' @ sdec dirsum @ [newline]"

text \<open>The line \<open>write_record\<close> encodes for its arguments, before any truncation.\<close>

definition record_line :: "string \<Rightarrow> stat \<Rightarrow> nat \<Rightarrow> int \<Rightarrow> int \<Rightarrow> int \<Rightarrow> string" where
  "record_line path st parent_inode dep fcount dirsum =
     fmt_line (csv_escape (filename_of path)) (csv_escape (ext_of (filename_of path)))
       st parent_inode dep fcount dirsum"

text \<open>\<^verbatim>\<open>snprintf(fullpath, MAXPATH, "%s/%s", dir, name)\<close>: at most \<open>MAXPATH - 1\<close> characters.\<close>

definition fullpath_of :: "string \<Rightarrow> string \<Rightarrow> string" where
  "fullpath_of dir name = take (MAXPATH - 1) (dir @ ''/'' @ name)"

subsection \<open>The sink and the buffer cells\<close>

definition log_event :: "event \<Rightarrow> gstate \<Rightarrow> gstate" where
  "log_event e s = s\<lparr>trace := trace s @ [e]\<rparr>"

definition fault_if :: "bool \<Rightarrow> fault \<Rightarrow> gstate \<Rightarrow> gstate" where
  "fault_if c f s = (if c then s\<lparr>faults := insert f (faults s)\<rparr> else s)"

text \<open>
  \<^verbatim>\<open>fwrite(p, 1, n, f)\<close> on the stream: the device takes what fits; a short write sets
  the error indicator. The program never looks at the count \<open>fwrite\<close> returns.
\<close>

definition fwrite :: "string \<Rightarrow> FILE \<Rightarrow> FILE" where
  "fwrite bytes f =
     (let n = min (length bytes) (fcap f - length (fdata f))
      in f\<lparr>fdata := fdata f @ take n bytes, ferror := ferror f \<or> n < length bytes\<rparr>)"

text \<open>\<^verbatim>\<open>fwrite(..., output_file)\<close>; a null or closed stream is undefined behaviour.\<close>

definition fwrite_output :: "string \<Rightarrow> gstate \<Rightarrow> gstate" where
  "fwrite_output bytes s =
     (case output_file s of
        None \<Rightarrow> fault_if True BadStream s
      | Some f \<Rightarrow>
          if fclosed f then fault_if True BadStream s
          else log_event (EvFwrite bytes) (s\<lparr>output_file := Some (fwrite bytes f)\<rparr>))"

text \<open>
  \<^verbatim>\<open>ZSTD_compressStream2(zstd_stream, &output, &input, directive)\<close> followed by the
  \<open>fwrite\<close> of \<open>output\<close>, as \<open>flush_buffer\<close> and the finalisation of \<open>csv_write\<close> do it.
\<close>

definition compress_write :: "sys \<Rightarrow> string list \<Rightarrow> string \<Rightarrow> bool \<Rightarrow> gstate \<Rightarrow> gstate" where
  "compress_write E z input fin s =
     (let out = zstd_out E z input fin
      in fwrite_output out (log_event (EvCompress input out) (s\<lparr>zstd_stream := Some (z @ [input])\<rparr>)))"

text \<open>
  \<open>flush_buffer(buf)\<close>, inside the lock \<open>mutexOutput\<close>. Without \<^verbatim>\<open>HAVE_ZSTD\<close> the
  variable \<open>zstd_stream\<close> does not exist and the raw branch is the only one.
\<close>

definition flush_buffer :: "sys \<Rightarrow> nat \<Rightarrow> gstate \<Rightarrow> gstate" where
  "flush_buffer E b s =
     (let B = buffers s ! b in
      if used B = 0 then s
      else
        let bytes = take (used B) (csv_buffer B);
            s0 = log_event (EvFlush b bytes) s;
            s1 = (case (if have_zstd E then zstd_stream s0 else None) of
                    Some z \<Rightarrow> compress_write E z bytes False s0
                  | None \<Rightarrow> fwrite_output bytes s0)
        in s1\<lparr>buffers := (buffers s1)[b := (buffers s1 ! b)\<lparr>used := 0\<rparr>]\<rparr>)"

text \<open>
  The last statements of \<open>write_record\<close>: the flush when the line would reach the end of
  the cell, the \<open>memcpy\<close> of \<open>len\<close> bytes of \<open>line\<close> to offset \<open>used\<close>, and the new \<open>used\<close>.
  A \<open>memcpy\<close> that ends behind the array \<open>csv_buffer\<close> is the fault \<open>CellOverrun\<close>.
\<close>

definition append_line :: "sys \<Rightarrow> nat \<Rightarrow> string \<Rightarrow> nat \<Rightarrow> gstate \<Rightarrow> gstate" where
  "append_line E b line len s =
     (let s1 = (if used (buffers s ! b) + len \<ge> BUFFER_SIZE then flush_buffer E b s else s);
          B = buffers s1 ! b;
          s2 = fault_if (used B + len > BUFFER_SIZE) CellOverrun s1
      in s2\<lparr>buffers := (buffers s2)[b := B\<lparr>csv_buffer := take (used B) (csv_buffer B) @ take len line,
                                            used := used B + len\<rparr>]\<rparr>)"

text \<open>
  \<open>write_record\<close>. \<open>esc_name\<close> and \<open>line\<close> are arrays of \<open>2 * MAXPATH\<close> bytes, \<open>esc_ext\<close> one of
  256 bytes; \<open>csv_escape\<close> writes the escaped string and its terminator. \<open>snprintf\<close>
  returns the length of the whole line and stores at most \<open>2 * MAXPATH - 1\<close> characters
  of it and the terminator; \<open>memcpy\<close> then reads \<open>len\<close> bytes of \<open>line\<close>.
\<close>

definition write_record :: "sys \<Rightarrow> nat \<Rightarrow> string \<Rightarrow> stat \<Rightarrow> nat \<Rightarrow> int \<Rightarrow> int \<Rightarrow> int \<Rightarrow> gstate \<Rightarrow> gstate" where
  "write_record E b path st parent_inode dep fcount dirsum s =
     (let filename = filename_of path;
          ext = ext_of filename;
          esc_name = csv_escape filename;
          esc_ext = csv_escape ext;
          full = fmt_line esc_name esc_ext st parent_inode dep fcount dirsum;
          len = length full;
          line = take (2 * MAXPATH - 1) full @ [NUL];
          s1 = fault_if (length esc_name \<ge> 2 * MAXPATH) EscNameOverflow s;
          s2 = fault_if (length esc_ext \<ge> 256) EscExtOverflow s1;
          s3 = fault_if (len \<ge> 2 * MAXPATH) LineTruncated s2
      in log_event (EvRecord b path st parent_inode dep fcount dirsum) (append_line E b line len s3))"

subsection \<open>The traversal\<close>

text \<open>Reading through the pointer \<open>cur\<close>.\<close>

definition deref :: "gstate \<Rightarrow> tdref \<Rightarrow> threadData" where
  "deref s p = (case p of Slot j \<Rightarrow> tdslot s ! j | Local td \<Rightarrow> td)"

text \<open>
  \<^verbatim>\<open>slot = 0; while (slot < MAXTHRDS && tdslot[slot].THRDid != -1) slot++;\<close>
\<close>

function find_slot :: "threadData list \<Rightarrow> nat \<Rightarrow> nat" where
  "find_slot tds slot =
     (if slot < MAXTHRDS \<and> THRDid (tds ! slot) \<noteq> - 1 then find_slot tds (slot + 1) else slot)"
  by pat_completeness auto
termination
  by (relation "measure (\<lambda>(tds, slot). MAXTHRDS - slot)") auto

declare find_slot.simps [simp del]

definition upd_slot :: "nat \<Rightarrow> (threadData \<Rightarrow> threadData) \<Rightarrow> gstate \<Rightarrow> gstate" where
  "upd_slot j f s = s\<lparr>tdslot := (tdslot s)[j := f (tdslot s ! j)]\<rparr>"

definition set_stack :: "nat \<Rightarrow> frame list \<Rightarrow> gstate \<Rightarrow> gstate" where
  "set_stack k fs s = s\<lparr>stacks := (stacks s)[k := fs]\<rparr>"

text \<open>A fresh invocation of \<open>traverse\<close> on the argument \<open>p\<close>.\<close>

definition new_frame :: "tdref \<Rightarrow> frame" where
  "new_frame p = \<lparr>cur = p, pc = AtOpen, dirp = \<lparr>d_ents = [], d_pos = 0\<rparr>, localCnt = 0, localSz = 0\<rparr>"

definition readdir :: "DIR \<Rightarrow> (string \<times> DIR) option" where
  "readdir d =
     (if d_pos d < length (d_ents d) then Some (d_ents d ! d_pos d, d\<lparr>d_pos := Suc (d_pos d)\<rparr>)
      else None)"

text \<open>
  \<^verbatim>\<open>dirp = opendir(cur->dname); if (!dirp) goto cleanup;\<close>
\<close>

definition traverse_open :: "sys \<Rightarrow> nat \<Rightarrow> frame \<Rightarrow> frame list \<Rightarrow> gstate \<Rightarrow> gstate" where
  "traverse_open E k fr rest s =
     (let c = deref s (cur fr) in
      case fs_opendir E (dname c) of
        None \<Rightarrow> set_stack k (fr\<lparr>pc := AtCleanup\<rparr> # rest) (log_event (EvOpendir (dname c) False) s)
      | Some ents \<Rightarrow>
          set_stack k (fr\<lparr>pc := InLoop, dirp := \<lparr>d_ents = ents, d_pos = 0\<rparr>\<rparr> # rest)
            (log_event (EvOpendir (dname c) True) s))"

text \<open>
  The branch \<^verbatim>\<open>S_ISDIR(f.st_mode)\<close> of the loop. Inside the lock \<open>mutexFD\<close> a free slot
  is claimed when \<open>ThreadCNT < MAXTHRDS\<close> and one exists; otherwise \<open>new\<close> is the variable
  \<open>local\<close>. After the lock the four remaining fields of \<open>*new\<close> are stored one by one,
  each reading \<open>cur\<close> in the memory of that moment. Then either \<open>pthread_create\<close> starts
  a thread on the slot or \<open>traverse(new)\<close> is called in place. (\<open>pthread_create\<close> is taken
  to succeed.)
\<close>

definition fan_out :: "sys \<Rightarrow> nat \<Rightarrow> frame \<Rightarrow> frame list \<Rightarrow> string \<Rightarrow> stat \<Rightarrow> gstate \<Rightarrow> gstate" where
  "fan_out E k fr rest fullpath f s =
     (let slot = find_slot (tdslot s) 0 in
      if ThreadCNT s < int MAXTHRDS \<and> slot < MAXTHRDS then
        let s1 = upd_slot slot (\<lambda>t. t\<lparr>THRDid := totalTHRDS s, flag := 0, buf := slot\<rparr>) s;
            s2 = s1\<lparr>totalTHRDS := totalTHRDS s + 1, ThreadCNT := ThreadCNT s + 1\<rparr>;
            s3 = upd_slot slot (\<lambda>t. t\<lparr>dname := fullpath\<rparr>) s2;
            s4 = upd_slot slot (\<lambda>t. t\<lparr>depth := depth (deref s3 (cur fr)) + 1\<rparr>) s3;
            s5 = upd_slot slot (\<lambda>t. t\<lparr>pinode := st_ino (pstat (deref s4 (cur fr)))\<rparr>) s4;
            s6 = upd_slot slot (\<lambda>t. t\<lparr>pstat := f\<rparr>) s5
        in if THRDid (tdslot s6 ! slot) \<noteq> THRDid (deref s6 (cur fr))
           then set_stack slot [new_frame (Slot slot)] (set_stack k (fr # rest) s6)
           else set_stack k (new_frame (Slot slot) # fr # rest) s6
      else
        let c = deref s (cur fr);
            new = \<lparr>dname = fullpath, pinode = st_ino (pstat c), depth = depth c + 1,
                   THRDid = THRDid c, flag = flag c + 1, pstat = f, buf = buf c\<rparr>
        in set_stack k (new_frame (Local new) # fr # rest) s)"

text \<open>
  One iteration of the loop, for the entry \<open>d\<close> that \<open>readdir\<close> returned (\<open>fr\<close> holds the
  advanced stream). The three \<^verbatim>\<open>continue\<close> statements leave everything else as it was.
\<close>

definition loop_body :: "sys \<Rightarrow> nat \<Rightarrow> frame \<Rightarrow> frame list \<Rightarrow> string \<Rightarrow> gstate \<Rightarrow> gstate" where
  "loop_body E k fr rest d s =
     (if d = ''.'' \<or> d = ''..'' then set_stack k (fr # rest) s
      else if SNAPSHOT s \<noteq> 0 \<and> d = ''.snapshot'' then set_stack k (fr # rest) s
      else
        let c = deref s (cur fr);
            fullpath = fullpath_of (dname c) d
        in case fs_lstat E fullpath of
             None \<Rightarrow> set_stack k (fr # rest) s
           | Some f \<Rightarrow>
               let fr1 = fr\<lparr>localCnt := localCnt fr + 1\<rparr> in
               if S_ISDIR (st_mode f) then fan_out E k fr1 rest fullpath f s
               else
                 write_record E (buf c) fullpath f (st_ino (pstat c)) (depth c) (- 1) 0
                   (set_stack k (fr1\<lparr>localSz := localSz fr1 + st_size f\<rparr> # rest) s))"

text \<open>
  \<^verbatim>\<open>while ((d = readdir(dirp)) != NULL) { ... }\<close>, and behind the loop \<open>closedir\<close> and
  the summary record of the directory.
\<close>

definition traverse_loop :: "sys \<Rightarrow> nat \<Rightarrow> frame \<Rightarrow> frame list \<Rightarrow> gstate \<Rightarrow> gstate" where
  "traverse_loop E k fr rest s =
     (case readdir (dirp fr) of
        Some (d, dp) \<Rightarrow> loop_body E k (fr\<lparr>dirp := dp\<rparr>) rest d s
      | None \<Rightarrow>
          let c = deref s (cur fr)
          in write_record E (buf c) (dname c) (pstat c) (pinode c) (depth c) (localCnt fr) (localSz fr)
               (set_stack k (fr\<lparr>pc := AtCleanup\<rparr> # rest) s))"

text \<open>
  The label \<open>cleanup\<close>: a thread (\<open>flag == 0\<close>) flushes its cell and goes on to release
  its slot; an invocation called in place returns to its caller.
\<close>

definition traverse_cleanup :: "sys \<Rightarrow> nat \<Rightarrow> frame \<Rightarrow> frame list \<Rightarrow> gstate \<Rightarrow> gstate" where
  "traverse_cleanup E k fr rest s =
     (let c = deref s (cur fr) in
      if flag c = 0 then flush_buffer E (buf c) (set_stack k (fr\<lparr>pc := AtRelease\<rparr> # rest) s)
      else set_stack k rest s)"

text \<open>
  Inside the lock \<open>mutexFD\<close>: \<^verbatim>\<open>ThreadCNT--; cur->THRDid = -1;\<close> and then \<open>pthread_exit\<close>,
  which ends the thread with all its invocations.
\<close>

definition traverse_release :: "nat \<Rightarrow> frame \<Rightarrow> gstate \<Rightarrow> gstate" where
  "traverse_release k fr s =
     (let s1 = s\<lparr>ThreadCNT := ThreadCNT s - 1\<rparr>;
          s2 = (case cur fr of Slot j \<Rightarrow> upd_slot j (\<lambda>t. t\<lparr>THRDid := - 1\<rparr>) s1 | Local td \<Rightarrow> s1)
      in set_stack k [] s2)"

text \<open>One action of the worker thread that was started on slot \<open>k\<close>.\<close>

definition step :: "sys \<Rightarrow> nat \<Rightarrow> gstate \<Rightarrow> gstate" where
  "step E k s =
     (if k < length (stacks s) then
        (case stacks s ! k of
           [] \<Rightarrow> s
         | fr # rest \<Rightarrow>
             (case pc fr of
                AtOpen \<Rightarrow> traverse_open E k fr rest s
              | InLoop \<Rightarrow> traverse_loop E k fr rest s
              | AtCleanup \<Rightarrow> traverse_cleanup E k fr rest s
              | AtRelease \<Rightarrow> traverse_release k fr s))
      else s)"

text \<open>A run of the workers under a schedule.\<close>

fun run :: "sys \<Rightarrow> nat list \<Rightarrow> gstate \<Rightarrow> gstate" where
  "run E [] s = s"
| "run E (k # ks) s = run E ks (step E k s)"

subsection \<open>The entry point\<close>

datatype pyexc = IOError string | OSError string

record pyresult =
  r_output :: string
  r_compressed :: int

text \<open>A schedule of the whole program: a worker moves, or the main thread wakes up.\<close>

datatype sched_item = Worker nat | Poll

definition fclose_output :: "gstate \<Rightarrow> gstate" where
  "fclose_output s =
     (case output_file s of
        None \<Rightarrow> fault_if True BadStream s
      | Some f \<Rightarrow> s\<lparr>output_file := Some (f\<lparr>fclosed := True\<rparr>)\<rparr>)"

text \<open>
  \<open>csv_write\<close> up to the start of the first thread. The result is the exception of an
  early return, if any, and the state.
\<close>

definition csv_write_init :: "sys \<Rightarrow> string \<Rightarrow> string \<Rightarrow> int \<Rightarrow> int \<Rightarrow> gstate \<Rightarrow> pyexc option \<times> gstate" where
  "csv_write_init E top_dir output ignore_snaps compress g =
     (let s0 = g\<lparr>SNAPSHOT := ignore_snaps\<rparr> in
      case fs_fopen E output of
        None \<Rightarrow> (Some (IOError output), s0\<lparr>output_file := None\<rparr>)
      | Some cap \<Rightarrow>
          let s1 = s0\<lparr>output_file := Some \<lparr>fdata = [], fcap = cap, ferror = False, fclosed = False\<rparr>\<rparr>;
              s2 = (if have_zstd E \<and> compress \<noteq> 0
                    then s1\<lparr>zstd_stream := (if zstd_create_ok E then Some [] else None)\<rparr> else s1);
              s3 = fwrite_output header s2;
              s4 = s3\<lparr>ThreadCNT := 0, totalTHRDS := 0,
                      buffers := map (\<lambda>B. B\<lparr>used := 0\<rparr>) (buffers s3),
                      tdslot := map (\<lambda>t. t\<lparr>THRDid := - 1\<rparr>) (tdslot s3)\<rparr>
          in case fs_lstat E top_dir of
               None \<Rightarrow> (Some (OSError top_dir), fclose_output s4)
             | Some root \<Rightarrow>
                 let s5 = fault_if (length top_dir \<ge> MAXPATH) DnameOverflow s4;
                     s6 = upd_slot 0 (\<lambda>t. t\<lparr>dname := top_dir, THRDid := totalTHRDS s5, flag := 0,
                                            depth := - 1, pinode := 0, buf := 0, pstat := root\<rparr>) s5;
                     s7 = s6\<lparr>totalTHRDS := totalTHRDS s5 + 1, ThreadCNT := 1\<rparr>
                 in (None, set_stack 0 [new_frame (Slot 0)] s7))"

text \<open>
  The polling loop. Each \<open>Poll\<close> of the schedule is one iteration (the main thread wakes
  from \<open>usleep\<close> and reads \<open>ThreadCNT\<close>); the workers move in between. \<open>None\<close>: the
  schedule ends while the main thread still waits.
\<close>

fun wait_loop :: "sys \<Rightarrow> sched_item list \<Rightarrow> nat \<Rightarrow> gstate \<Rightarrow> gstate option" where
  "wait_loop E [] iterations s = (if iterations < max_iterations then None else Some s)"
| "wait_loop E (Worker k # sch) iterations s =
     (if iterations < max_iterations then wait_loop E sch iterations (step E k s) else Some s)"
| "wait_loop E (Poll # sch) iterations s =
     (if iterations < max_iterations
      then (if ThreadCNT s = 0 then Some s else wait_loop E sch (Suc iterations) s)
      else Some s)"

text \<open>The end of \<open>csv_write\<close>: the end of the compressed frame, and \<open>fclose\<close>.\<close>

definition csv_write_final :: "sys \<Rightarrow> int \<Rightarrow> gstate \<Rightarrow> gstate" where
  "csv_write_final E compress s =
     (let s1 = (if have_zstd E \<and> compress \<noteq> 0
                then (case zstd_stream s of
                        Some z \<Rightarrow> (compress_write E z [] True s)\<lparr>zstd_stream := None\<rparr>
                      | None \<Rightarrow> s)
                else s)
      in fclose_output s1)"

text \<open>
  \<open>csv_write(top, output, max_threads, ignore_snaps, compress)\<close> called in the module
  state \<open>g\<close>: what it returns to Python (an exception or the result dictionary) and the
  state it leaves. \<open>max_threads\<close> is parsed and never used.
\<close>

definition csv_write ::
  "sys \<Rightarrow> string \<Rightarrow> string \<Rightarrow> int \<Rightarrow> int \<Rightarrow> int \<Rightarrow> sched_item list \<Rightarrow> gstate \<Rightarrow> ((pyexc + pyresult) \<times> gstate) option" where
  "csv_write E top_dir output max_threads ignore_snaps compress sch g =
     (let started = csv_write_init E top_dir output ignore_snaps compress g in
      case fst started of
        Some e \<Rightarrow> Some (Inl e, snd started)
      | None \<Rightarrow>
          (case wait_loop E sch 0 (snd started) of
             None \<Rightarrow> None
           | Some s' \<Rightarrow>
               Some (Inr \<lparr>r_output = output, r_compressed = compress\<rparr>, csv_write_final E compress s')))"

text \<open>The module-level variables as the loader initialises them.\<close>

definition stat_zero :: stat where
  "stat_zero = \<lparr>st_ino = 0, st_mode = 0, st_uid = 0, st_gid = 0, st_size = 0, st_dev = 0,
                 st_blocks = 0, st_nlink = 0, st_atime = 0, st_mtime = 0, st_ctime = 0\<rparr>"

definition module_init :: gstate where
  "module_init =
     \<lparr>ThreadCNT = 0, totalTHRDS = 0,
      tdslot = replicate MAXTHRDS
        \<lparr>dname = [], pinode = 0, depth = 0, THRDid = 0, flag = 0, pstat = stat_zero, buf = 0\<rparr>,
      buffers = replicate MAXTHRDS \<lparr>csv_buffer = [], used = 0\<rparr>,
      output_file = None, SNAPSHOT = 1, zstd_stream = None,
      stacks = replicate MAXTHRDS [], faults = {}, trace = []\<rparr>"

subsection \<open>What a directory is expected to report\<close>

text \<open>
  Following the specification: the children of a directory that are considered are its
  entries other than \<open>.\<close> and \<open>..\<close>, other than \<open>.snapshot\<close> when snapshots are ignored,
  and for which \<open>lstat\<close> of the composed path succeeds. \<open>spec_fcount\<close> counts them;
  \<open>spec_dirsum\<close> adds the sizes of those that are not directories.
\<close>

definition counted :: "sys \<Rightarrow> int \<Rightarrow> string \<Rightarrow> string \<Rightarrow> bool" where
  "counted E snap dir d =
     (d \<noteq> ''.'' \<and> d \<noteq> ''..'' \<and> \<not> (snap \<noteq> 0 \<and> d = ''.snapshot'')
      \<and> fs_lstat E (fullpath_of dir d) \<noteq> None)"

definition is_dir_at :: "sys \<Rightarrow> string \<Rightarrow> bool" where
  "is_dir_at E p = (case fs_lstat E p of Some f \<Rightarrow> S_ISDIR (st_mode f) | None \<Rightarrow> False)"

definition stat_at :: "sys \<Rightarrow> string \<Rightarrow> stat" where
  "stat_at E p = (case fs_lstat E p of Some f \<Rightarrow> f | None \<Rightarrow> stat_zero)"

definition counted_file :: "sys \<Rightarrow> int \<Rightarrow> string \<Rightarrow> string \<Rightarrow> bool" where
  "counted_file E snap dir d = (counted E snap dir d \<and> \<not> is_dir_at E (fullpath_of dir d))"

definition spec_fcount :: "sys \<Rightarrow> int \<Rightarrow> string \<Rightarrow> string list \<Rightarrow> int" where
  "spec_fcount E snap dir ents = int (length (filter (counted E snap dir) ents))"

definition spec_dirsum :: "sys \<Rightarrow> int \<Rightarrow> string \<Rightarrow> string list \<Rightarrow> int" where
  "spec_dirsum E snap dir ents =
     sum_list (map (\<lambda>d. st_size (stat_at E (fullpath_of dir d))) (filter (counted_file E snap dir) ents))"

text \<open>
  The entry records of the children of a directory that are not directories, as
  \<open>write_record\<close> is called for them from an invocation that writes to cell \<open>b\<close> for the
  directory \<open>dir\<close> with inode \<open>ino\<close> at depth \<open>dep\<close>.
\<close>

definition entry_events :: "sys \<Rightarrow> int \<Rightarrow> nat \<Rightarrow> string \<Rightarrow> nat \<Rightarrow> int \<Rightarrow> string list \<Rightarrow> event list" where
  "entry_events E snap b dir ino dep ents =
     map (\<lambda>d. EvRecord b (fullpath_of dir d) (stat_at E (fullpath_of dir d)) ino dep (- 1) 0)
       (filter (counted_file E snap dir) ents)"

subsection \<open>Reading the log\<close>

text \<open>A summary record is a record whose count is not the sentinel \<open>-1\<close>.\<close>

fun summary_of :: "event \<Rightarrow> string list" where
  "summary_of (EvRecord b path st pino dep cnt sz) = (if cnt \<noteq> - 1 then [path] else [])"
| "summary_of _ = []"

fun opened_of :: "event \<Rightarrow> string list" where
  "opened_of (EvOpendir p ok) = (if ok then [p] else [])"
| "opened_of _ = []"

text \<open>The directories opened, and the directories summarised, in the order of the log.\<close>

definition opened_dirs :: "event list \<Rightarrow> string list" where
  "opened_dirs tr = concat (map opened_of tr)"

definition summary_dirs :: "event list \<Rightarrow> string list" where
  "summary_dirs tr = concat (map summary_of tr)"

text \<open>The directories of the invocations that are inside their loop.\<close>

definition inloop_dirs :: "gstate \<Rightarrow> frame list \<Rightarrow> string list" where
  "inloop_dirs s fs = map (\<lambda>fr. dname (deref s (cur fr))) (filter (\<lambda>fr. pc fr = InLoop) fs)"

definition open_frames :: "gstate \<Rightarrow> string list" where
  "open_frames s = concat (map (inloop_dirs s) (stacks s))"


text \<open>The number of threads that run.\<close>

definition running :: "gstate \<Rightarrow> nat" where
  "running s = length (filter (\<lambda>fs. fs \<noteq> []) (stacks s))"

text \<open>The events of the sink: a flush, a call of the compressor, an \<open>fwrite\<close>.\<close>

fun is_io :: "event \<Rightarrow> bool" where
  "is_io (EvFlush b bytes) = True"
| "is_io (EvCompress input out) = True"
| "is_io (EvFwrite bytes) = True"
| "is_io _ = False"

text \<open>A summary record reports the expected count and sum of its directory.\<close>

fun summary_ok :: "sys \<Rightarrow> int \<Rightarrow> event \<Rightarrow> bool" where
  "summary_ok E snap (EvRecord b path st pino dep cnt sz) =
     (cnt \<noteq> - 1 \<longrightarrow>
        (case fs_opendir E path of
           None \<Rightarrow> False
         | Some ents \<Rightarrow> cnt = spec_fcount E snap path ents \<and> sz = spec_dirsum E snap path ents))"
| "summary_ok E snap _ = True"

text \<open>
  A summary record comes after the entry records of its directory: they are, in
  order, among the events \<open>before\<close> it.
\<close>

fun summary_after :: "sys \<Rightarrow> int \<Rightarrow> event list \<Rightarrow> event \<Rightarrow> bool" where
  "summary_after E snap before (EvRecord b path st pino dep cnt sz) =
     (cnt \<noteq> - 1 \<longrightarrow>
        (case fs_opendir E path of
           None \<Rightarrow> False
         | Some ents \<Rightarrow> subseq (entry_events E snap b path (st_ino st) dep ents) before))"
| "summary_after E snap before _ = True"

definition summaries_last :: "sys \<Rightarrow> int \<Rightarrow> event list \<Rightarrow> bool" where
  "summaries_last E snap tr = (\<forall>i<length tr. summary_after E snap (take i tr) (tr ! i))"

text \<open>The lines recorded for a cell, the bytes flushed from it, in the order of the log.\<close>

fun line_of :: "nat \<Rightarrow> event \<Rightarrow> string" where
  "line_of b (EvRecord b' path st pino dep cnt sz) =
     (if b' = b then record_line path st pino dep cnt sz else [])"
| "line_of b _ = []"

fun flushed_of :: "nat \<Rightarrow> event \<Rightarrow> string" where
  "flushed_of b (EvFlush b' bytes) = (if b' = b then bytes else [])"
| "flushed_of b _ = []"

definition cell_lines :: "nat \<Rightarrow> event list \<Rightarrow> string" where
  "cell_lines b tr = concat (map (line_of b) tr)"

definition cell_flushed :: "nat \<Rightarrow> event list \<Rightarrow> string" where
  "cell_flushed b tr = concat (map (flushed_of b) tr)"

text \<open>The bytes handed to \<open>fwrite\<close>, the bytes flushed from all cells, the compressor's output.\<close>

fun written_of :: "event \<Rightarrow> string" where
  "written_of (EvFwrite bytes) = bytes"
| "written_of _ = []"

fun flush_of :: "event \<Rightarrow> string" where
  "flush_of (EvFlush b bytes) = bytes"
| "flush_of _ = []"

fun compressed_of :: "event \<Rightarrow> string" where
  "compressed_of (EvCompress input out) = out"
| "compressed_of _ = []"

definition written :: "event list \<Rightarrow> string" where
  "written tr = concat (map written_of tr)"

definition all_flushed :: "event list \<Rightarrow> string" where
  "all_flushed tr = concat (map flush_of tr)"

definition compressed :: "event list \<Rightarrow> string" where
  "compressed tr = concat (map compressed_of tr)"

text \<open>
  Every \<open>fwrite\<close> of the log writes the output of the call of the compressor right
  before it.
\<close>

fun only_compressed :: "event list \<Rightarrow> bool" where
  "only_compressed [] = True"
| "only_compressed (EvCompress input out # EvFwrite bytes # tr) = (bytes = out \<and> only_compressed tr)"
| "only_compressed (EvFwrite bytes # tr) = False"
| "only_compressed (e # tr) = only_compressed tr"

subsection \<open>Invariants of the running workers\<close>

text \<open>The log only grows.\<close>

definition extends :: "gstate \<Rightarrow> gstate \<Rightarrow> bool" where
  "extends s s' = (\<exists>ev. trace s' = trace s @ ev)"


text \<open>
  An invocation inside its loop has opened the directory of its argument, and its
  counters are those of the entries read so far; the entry records of those entries
  are in the log.
\<close>

definition loop_inv :: "sys \<Rightarrow> int \<Rightarrow> event list \<Rightarrow> threadData \<Rightarrow> frame \<Rightarrow> bool" where
  "loop_inv E snap tr c fr =
     (fs_opendir E (dname c) = Some (d_ents (dirp fr))
      \<and> d_pos (dirp fr) \<le> length (d_ents (dirp fr))
      \<and> localCnt fr = spec_fcount E snap (dname c) (take (d_pos (dirp fr)) (d_ents (dirp fr)))
      \<and> localSz fr = spec_dirsum E snap (dname c) (take (d_pos (dirp fr)) (d_ents (dirp fr)))
      \<and> subseq (entry_events E snap (buf c) (dname c) (st_ino (pstat c)) (depth c)
                  (take (d_pos (dirp fr)) (d_ents (dirp fr)))) tr)"

text \<open>
  An invocation of the thread on slot \<open>k\<close> writes to cell \<open>k\<close> and carries the identity
  of the thread; the argument is the slot itself with \<open>flag = 0\<close>, or a \<open>local\<close> with
  \<open>flag > 0\<close>; before the directory is opened the counters are zero; only a thread
  (\<open>flag = 0\<close>) reaches the release of the slot.
\<close>

definition frame_inv :: "sys \<Rightarrow> gstate \<Rightarrow> nat \<Rightarrow> frame \<Rightarrow> bool" where
  "frame_inv E s k fr =
     (buf (deref s (cur fr)) = k
      \<and> THRDid (deref s (cur fr)) = THRDid (tdslot s ! k)
      \<and> (case cur fr of Slot j \<Rightarrow> j = k \<and> flag (tdslot s ! k) = 0 | Local td \<Rightarrow> 0 < flag td)
      \<and> (pc fr = AtOpen \<longrightarrow> localCnt fr = 0 \<and> localSz fr = 0)
      \<and> (pc fr = AtRelease \<longrightarrow> flag (deref s (cur fr)) = 0)
      \<and> (pc fr = InLoop \<longrightarrow> loop_inv E (SNAPSHOT s) (trace s) (deref s (cur fr)) fr))"

text \<open>
  The stack of the thread on slot \<open>k\<close>: the slot is taken while the thread runs, the
  outermost invocation is the one on the slot and the only one, every caller waits
  inside its loop, and a thread about to release its slot has an empty cell.
\<close>

definition stack_inv :: "sys \<Rightarrow> gstate \<Rightarrow> nat \<Rightarrow> bool" where
  "stack_inv E s k =
     ((\<forall>fr \<in> set (stacks s ! k). frame_inv E s k fr)
      \<and> (stacks s ! k \<noteq> [] \<longrightarrow>
            0 \<le> THRDid (tdslot s ! k) \<and> THRDid (tdslot s ! k) < totalTHRDS s
            \<and> cur (last (stacks s ! k)) = Slot k)
      \<and> (\<forall>fr \<in> set (butlast (stacks s ! k)). \<exists>td. cur fr = Local td)
      \<and> (\<forall>fr \<in> set (tl (stacks s ! k)). pc fr = InLoop)
      \<and> (\<forall>fr \<in> set (take 1 (stacks s ! k)). pc fr = AtRelease \<longrightarrow> used (buffers s ! k) = 0))"

definition wellformed :: "sys \<Rightarrow> gstate \<Rightarrow> bool" where
  "wellformed E s =
     (length (tdslot s) = MAXTHRDS \<and> length (buffers s) = MAXTHRDS \<and> length (stacks s) = MAXTHRDS
      \<and> 0 \<le> totalTHRDS s
      \<and> (\<forall>k<MAXTHRDS. stack_inv E s k))"

text \<open>
  The fan-out decision claims a slot when \<open>ThreadCNT < MAXTHRDS\<close> and the search finds
  a free one.
\<close>

definition claimed :: "gstate \<Rightarrow> bool" where
  "claimed s = (ThreadCNT s < int MAXTHRDS \<and> find_slot (tdslot s) 0 < MAXTHRDS)"

text \<open>
  A cell holds, behind what was flushed from it, the lines recorded for it.
\<close>

definition cell_inv :: "gstate \<Rightarrow> nat \<Rightarrow> bool" where
  "cell_inv s b =
     (cell_lines b (trace s)
        = cell_flushed b (trace s) @ take (used (buffers s ! b)) (csv_buffer (buffers s ! b))
      \<and> used (buffers s ! b) \<le> length (csv_buffer (buffers s ! b)))"

text \<open>
  A module state in which \<open>csv_write\<close> can be called: the arrays have their size, no
  worker is running, and the log is empty.
\<close>

definition idle :: "gstate \<Rightarrow> bool" where
  "idle g =
     (length (tdslot g) = MAXTHRDS \<and> length (buffers g) = MAXTHRDS
      \<and> stacks g = replicate MAXTHRDS [] \<and> trace g = [] \<and> faults g = {})"


subsection \<open>An example system\<close>

text \<open>
  A directory \<open>/t\<close> (inode 100) with a snapshot directory, two files, a subdirectory
  \<open>sub\<close> holding one file, and a name \<open>gone\<close> whose \<open>lstat\<close> fails; an empty directory
  \<open>/e\<close>; a directory \<open>/p\<close> with 32 subdirectories that cannot be opened. The toy
  compressor brackets its input.
\<close>

definition demo_stat :: "nat \<Rightarrow> nat \<Rightarrow> int \<Rightarrow> stat" where
  "demo_stat ino mode sz =
     \<lparr>st_ino = ino, st_mode = mode, st_uid = 7, st_gid = 7, st_size = sz, st_dev = 1,
      st_blocks = 8, st_nlink = 1, st_atime = 5, st_mtime = 5, st_ctime = 5\<rparr>"

definition demo_lstat :: "string \<Rightarrow> stat option" where
  "demo_lstat p =
     (if p = ''/t'' then Some (demo_stat 100 16877 4096)
      else if p = ''/t/.snapshot'' then Some (demo_stat 105 16877 4096)
      else if p = ''/t/a.txt'' then Some (demo_stat 101 33188 10)
      else if p = ''/t/sub'' then Some (demo_stat 103 16877 4096)
      else if p = ''/t/sub/c'' then Some (demo_stat 104 33188 5)
      else if p = ''/t/b'' then Some (demo_stat 102 33188 3)
      else if p = ''/e'' then Some (demo_stat 300 16877 4096)
      else if p = ''/p'' \<or> take 3 p = ''/p/'' then Some (demo_stat 400 16877 0)
      else None)"

definition demo_opendir :: "string \<Rightarrow> string list option" where
  "demo_opendir p =
     (if p = ''/t'' then Some [''.'', ''..'', ''.snapshot'', ''a.txt'', ''sub'', ''gone'', ''b'']
      else if p = ''/t/sub'' then Some [''.'', ''..'', ''c'']
      else if p = ''/e'' then Some [''.'', ''..'']
      else if p = ''/p'' then Some (map (\<lambda>c. [c]) ''abcdefghijklmnopqrstuvwxyzABCDEF'')
      else None)"

definition demo_sys :: sys where
  "demo_sys =
     \<lparr>fs_opendir = demo_opendir, fs_lstat = demo_lstat,
      fs_fopen = (\<lambda>p. if p = ''out.csv'' then Some 100000 else if p = ''full.csv'' then Some 0 else None),
      have_zstd = True, zstd_create_ok = True,
      zstd_out = (\<lambda>z i fin. if fin then ''$'' else ''<'' @ i @ ''>'')\<rparr>"

text \<open>
  A directory whose path has 4094 bytes, the longest whose children still get the
  separator into \<open>fullpath\<close>; it holds one entry. The path with a trailing separator
  names the same directory.
\<close>

definition long_dir :: string where
  "long_dir = CHR ''/'' # replicate 4093 CHR ''d''"

definition long_sys :: sys where
  "long_sys =
     demo_sys
       \<lparr>fs_opendir := (\<lambda>p. if p = long_dir \<or> p = long_dir @ ''/'' then Some [''.'', ''..'', ''x''] else None),
        fs_lstat := (\<lambda>p. if p = long_dir \<or> p = long_dir @ ''/'' then Some (demo_stat 500 16877 4096) else None)\<rparr>"

text \<open>A state with an open sink and three bytes in cell 0.\<close>

definition demo_state :: gstate where
  "demo_state =
     module_init
       \<lparr>buffers := (buffers module_init)[0 := \<lparr>csv_buffer = ''abc'', used = 3\<rparr>],
        output_file := Some \<lparr>fdata = [], fcap = 100, ferror = False, fclosed = False\<rparr>\<rparr>"

text \<open>
  The same with cell 0 filled up to eight bytes below its end, over a sink that has
  room for it.
\<close>

definition demo_full_state :: gstate where
  "demo_full_state =
     demo_state
       \<lparr>buffers := (buffers demo_state)[0 := \<lparr>csv_buffer = replicate 524280 CHR ''x'', used = 524280\<rparr>],
        output_file := Some \<lparr>fdata = ''h'', fcap = 1000000, ferror = False, fclosed = False\<rparr>\<rparr>"

text \<open>The walk of \<open>/t\<close> at the start of its first thread, uncompressed.\<close>

definition demo_start :: "int \<Rightarrow> gstate" where
  "demo_start ig = snd (csv_write_init demo_sys ''/t'' ''out.csv'' ig 0 module_init)"

text \<open>
  A schedule that completes the walk of \<open>/t\<close>: the first thread up to the claim of a
  slot for \<open>sub\<close>, the thread of \<open>sub\<close> to its end, the first thread to its end.
\<close>

definition demo_schedule :: "nat list" where
  "demo_schedule = [0, 0, 0, 0, 0, 0, 1, 1, 1, 1, 1, 1, 1, 0, 0, 0, 0, 0]"

text \<open>The walk of a given root, uncompressed, snapshots ignored.\<close>

definition demo_walk :: "string \<Rightarrow> gstate" where
  "demo_walk root = snd (csv_write_init demo_sys root ''out.csv'' 1 0 module_init)"

text \<open>The invocation on \<open>/t\<close> inside its loop, at a position and with its counters.\<close>

definition demo_frame :: "nat \<Rightarrow> int \<Rightarrow> int \<Rightarrow> frame" where
  "demo_frame pos cnt sz =
     \<lparr>cur = Slot 0, pc = InLoop,
      dirp = \<lparr>d_ents = [''.'', ''..'', ''.snapshot'', ''a.txt'', ''sub'', ''gone'', ''b''], d_pos = pos\<rparr>,
      localCnt = cnt, localSz = sz\<rparr>"

text \<open>
  The walk of \<open>/p\<close> when its thread has claimed the other 31 slots for the
  subdirectories \<open>a\<close> to \<open>E\<close> and has called \<open>traverse\<close> in place for \<open>F\<close>: the schedule, the
  invocation on \<open>/p\<close> and the invocation on \<open>/p/F\<close> after its \<open>opendir\<close> has failed.
\<close>

definition pool_schedule :: "nat list" where
  "pool_schedule = replicate 34 0"

definition pool_root :: frame where
  "pool_root =
     \<lparr>cur = Slot 0, pc = InLoop,
      dirp = \<lparr>d_ents = map (\<lambda>c. [c]) ''abcdefghijklmnopqrstuvwxyzABCDEF'', d_pos = 32\<rparr>,
      localCnt = 32, localSz = 0\<rparr>"

definition pool_nested :: frame where
  "pool_nested =
     \<lparr>cur = Local \<lparr>dname = ''/p/F'', pinode = 400, depth = 0, THRDid = 0, flag = 1,
                     pstat = demo_stat 400 16877 0, buf = 0\<rparr>,
      pc = AtCleanup, dirp = \<lparr>d_ents = [], d_pos = 0\<rparr>, localCnt = 0, localSz = 0\<rparr>"

text \<open>The definitions a concrete run is evaluated with.\<close>

lemmas core_defs =
  csv_write_def csv_write_init_def csv_write_final_def step_def traverse_open_def traverse_loop_def
  loop_body_def fan_out_def traverse_cleanup_def traverse_release_def write_record_def
  append_line_def flush_buffer_def compress_write_def fwrite_output_def fwrite_def
  fclose_output_def log_event_def fault_if_def set_stack_def upd_slot_def new_frame_def
  readdir_def deref_def module_init_def MAXPATH_def MAXTHRDS_def
  BUFFER_SIZE_def max_iterations_def S_ISDIR_def find_slot.simps Let_def fmt_line_def
  ext_of_def dec.simps oct.simps sdec_def dquote_def newline_def NUL_def
  stat_zero_def header_def

lemmas model_defs = core_defs fullpath_of_def filename_of_def

lemmas demo_defs =
  demo_sys_def demo_opendir_def demo_lstat_def demo_stat_def demo_state_def demo_full_state_def
  demo_start_def demo_frame_def demo_walk_def pool_root_def pool_nested_def demo_schedule_def


section \<open>Properties\<close>

subsection \<open>What the primitives leave alone\<close>

lemma log_event_fields [simp]:
  "ThreadCNT (log_event e s) = ThreadCNT s"
  "totalTHRDS (log_event e s) = totalTHRDS s"
  "tdslot (log_event e s) = tdslot s"
  "buffers (log_event e s) = buffers s"
  "output_file (log_event e s) = output_file s"
  "SNAPSHOT (log_event e s) = SNAPSHOT s"
  "zstd_stream (log_event e s) = zstd_stream s"
  "stacks (log_event e s) = stacks s"
  "faults (log_event e s) = faults s"
  "trace (log_event e s) = trace s @ [e]"
  by (simp_all add: log_event_def)

lemma fault_if_fields [simp]:
  "ThreadCNT (fault_if c f s) = ThreadCNT s"
  "totalTHRDS (fault_if c f s) = totalTHRDS s"
  "tdslot (fault_if c f s) = tdslot s"
  "buffers (fault_if c f s) = buffers s"
  "output_file (fault_if c f s) = output_file s"
  "SNAPSHOT (fault_if c f s) = SNAPSHOT s"
  "zstd_stream (fault_if c f s) = zstd_stream s"
  "stacks (fault_if c f s) = stacks s"
  "faults (fault_if c f s) = (if c then insert f (faults s) else faults s)"
  "trace (fault_if c f s) = trace s"
  by (simp_all add: fault_if_def)

lemma fwrite_output_fields [simp]:
  "ThreadCNT (fwrite_output bs s) = ThreadCNT s"
  "totalTHRDS (fwrite_output bs s) = totalTHRDS s"
  "tdslot (fwrite_output bs s) = tdslot s"
  "buffers (fwrite_output bs s) = buffers s"
  "SNAPSHOT (fwrite_output bs s) = SNAPSHOT s"
  "zstd_stream (fwrite_output bs s) = zstd_stream s"
  "stacks (fwrite_output bs s) = stacks s"
  by (simp_all add: fwrite_output_def split: option.split)

lemma fwrite_output_faults:
  "faults (fwrite_output bs s) = faults s \<or> faults (fwrite_output bs s) = insert BadStream (faults s)"
  by (simp add: fwrite_output_def split: option.split)

lemma compress_write_fields [simp]:
  "ThreadCNT (compress_write E z i fin s) = ThreadCNT s"
  "totalTHRDS (compress_write E z i fin s) = totalTHRDS s"
  "tdslot (compress_write E z i fin s) = tdslot s"
  "buffers (compress_write E z i fin s) = buffers s"
  "SNAPSHOT (compress_write E z i fin s) = SNAPSHOT s"
  "stacks (compress_write E z i fin s) = stacks s"
  "zstd_stream (compress_write E z i fin s) = Some (z @ [i])"
  by (simp_all add: compress_write_def Let_def)

lemma compress_write_faults:
  "faults (compress_write E z i fin s) = faults s
   \<or> faults (compress_write E z i fin s) = insert BadStream (faults s)"
  using fwrite_output_faults [of "zstd_out E z i fin"
      "log_event (EvCompress i (zstd_out E z i fin)) (s\<lparr>zstd_stream := Some (z @ [i])\<rparr>)"]
  by (simp add: compress_write_def Let_def)

lemma flush_buffer_fields [simp]:
  "ThreadCNT (flush_buffer E b s) = ThreadCNT s"
  "totalTHRDS (flush_buffer E b s) = totalTHRDS s"
  "tdslot (flush_buffer E b s) = tdslot s"
  "SNAPSHOT (flush_buffer E b s) = SNAPSHOT s"
  "stacks (flush_buffer E b s) = stacks s"
  "length (buffers (flush_buffer E b s)) = length (buffers s)"
  by (simp_all add: flush_buffer_def Let_def split: option.split)

lemma flush_buffer_cells:
  "buffers (flush_buffer E b s) =
     (if used (buffers s ! b) = 0 then buffers s else (buffers s)[b := (buffers s ! b)\<lparr>used := 0\<rparr>])"
  by (simp add: flush_buffer_def Let_def split: option.split)

lemma flush_buffer_used [simp]:
  "b < length (buffers s) \<Longrightarrow> used (buffers (flush_buffer E b s) ! b) = 0"
  by (simp add: flush_buffer_cells)

lemma flush_buffer_other [simp]:
  "b' \<noteq> b \<Longrightarrow> buffers (flush_buffer E b s) ! b' = buffers s ! b'"
  by (simp add: flush_buffer_cells)

lemma flush_buffer_empty:
  "used (buffers s ! b) = 0 \<Longrightarrow> flush_buffer E b s = s"
  by (simp add: flush_buffer_def)

lemma flush_buffer_faults:
  "faults (flush_buffer E b s) = faults s \<or> faults (flush_buffer E b s) = insert BadStream (faults s)"
proof (cases "used (buffers s ! b) = 0")
  case True
  then show ?thesis by (simp add: flush_buffer_empty)
next
  case False
  let ?s0 = "log_event (EvFlush b (take (used (buffers s ! b)) (csv_buffer (buffers s ! b)))) s"
  show ?thesis
  proof (cases "if have_zstd E then zstd_stream ?s0 else None")
    case None
    with False fwrite_output_faults [of _ ?s0] show ?thesis
      by (simp add: flush_buffer_def Let_def)
  next
    case (Some z)
    with False compress_write_faults [of E z _ False ?s0] show ?thesis
      by (simp add: flush_buffer_def Let_def)
  qed
qed

lemma flush_buffer_fault_if:
  "flush_buffer E b (fault_if c f s) = fault_if c f (flush_buffer E b s)"
  by (simp add: flush_buffer_def fault_if_def compress_write_def fwrite_output_def log_event_def
      Let_def insert_commute split: option.split)

text \<open>What a flush of a non-empty cell does to an open sink, in the raw and in the compressed mode.\<close>

lemma fwrite_fits:
  "length (fdata f) + length bytes \<le> fcap f \<Longrightarrow>
     fwrite bytes f = f\<lparr>fdata := fdata f @ bytes\<rparr>"
  by (simp add: fwrite_def Let_def min_def)

lemma flush_buffer_sink:
  assumes b: "b < length (buffers s)" and u: "used (buffers s ! b) \<noteq> 0"
    and out: "output_file s = Some f" "\<not> fclosed f"
  shows "flush_buffer E b s =
     (let bytes = take (used (buffers s ! b)) (csv_buffer (buffers s ! b)) in
      case (if have_zstd E then zstd_stream s else None) of
        None \<Rightarrow>
          s\<lparr>buffers := (buffers s)[b := (buffers s ! b)\<lparr>used := 0\<rparr>],
            output_file := Some (fwrite bytes f),
            trace := trace s @ [EvFlush b bytes, EvFwrite bytes]\<rparr>
      | Some z \<Rightarrow>
          s\<lparr>buffers := (buffers s)[b := (buffers s ! b)\<lparr>used := 0\<rparr>],
            output_file := Some (fwrite (zstd_out E z bytes False) f),
            zstd_stream := Some (z @ [bytes]),
            trace := trace s @ [EvFlush b bytes, EvCompress bytes (zstd_out E z bytes False),
                                EvFwrite (zstd_out E z bytes False)]\<rparr>)"
  using assms
  by (simp add: flush_buffer_def compress_write_def fwrite_output_def log_event_def Let_def
      split: option.split)

subsection \<open>Flushing a cell\<close>

text \<open>
  Claim C9. Flushing a cell whose used length is zero changes nothing at all: the
  state after it is the state before it, so nothing reaches the sink and the
  compressor is not called. Every flush leaves the used length at zero, and therefore
  a second flush of the same cell right after the first has no further effect.
\<close>

theorem flush_buffer_idempotent:
  assumes "b < length (buffers s)"
  shows "(used (buffers s ! b) = 0 \<longrightarrow> flush_buffer E b s = s)
       \<and> used (buffers (flush_buffer E b s) ! b) = 0
       \<and> flush_buffer E b (flush_buffer E b s) = flush_buffer E b s"
  using assms by (simp add: flush_buffer_empty)

theorem flush_buffer_idempotent_witness:
  "flush_buffer demo_sys 0 module_init = module_init
   \<and> used (buffers demo_state ! 0) = 3
   \<and> used (buffers (flush_buffer demo_sys 0 demo_state) ! 0) = 0
   \<and> map_option fdata (output_file (flush_buffer demo_sys 0 demo_state)) = Some ''abc''
   \<and> flush_buffer demo_sys 0 (flush_buffer demo_sys 0 demo_state) = flush_buffer demo_sys 0 demo_state"
proof -
  have len: "0 < length (buffers module_init)" "0 < length (buffers demo_state)"
    by (simp_all add: module_init_def demo_state_def MAXTHRDS_def)
  have zero: "used (buffers module_init ! 0) = 0"
    by (simp add: module_init_def MAXTHRDS_def)
  have out: "map_option fdata (output_file (flush_buffer demo_sys 0 demo_state)) = Some ''abc''"
    by (simp add: model_defs demo_defs cong: let_weak_cong)
  have three: "used (buffers demo_state ! 0) = 3"
    by (simp add: demo_state_def module_init_def MAXTHRDS_def)
  from flush_buffer_idempotent [OF len(1), of demo_sys] zero
       flush_buffer_idempotent [OF len(2), of demo_sys] out three
  show ?thesis by simp
qed


subsection \<open>Appending a record to a cell\<close>

lemma append_line_fields [simp]:
  "ThreadCNT (append_line E b line len s) = ThreadCNT s"
  "totalTHRDS (append_line E b line len s) = totalTHRDS s"
  "tdslot (append_line E b line len s) = tdslot s"
  "SNAPSHOT (append_line E b line len s) = SNAPSHOT s"
  "stacks (append_line E b line len s) = stacks s"
  "length (buffers (append_line E b line len s)) = length (buffers s)"
  by (simp_all add: append_line_def Let_def)

lemma append_line_other [simp]:
  "b' \<noteq> b \<Longrightarrow> buffers (append_line E b line len s) ! b' = buffers s ! b'"
  by (simp add: append_line_def Let_def)

lemma append_line_cell:
  assumes "b < length (buffers s)"
  shows "buffers (append_line E b line len s) ! b =
           (if BUFFER_SIZE \<le> used (buffers s ! b) + len
            then (buffers s ! b)\<lparr>csv_buffer := take len line, used := len\<rparr>
            else (buffers s ! b)\<lparr>csv_buffer := take (used (buffers s ! b)) (csv_buffer (buffers s ! b)) @ take len line,
                                   used := used (buffers s ! b) + len\<rparr>)"
  using assms by (simp add: append_line_def Let_def flush_buffer_cells)

lemma append_line_faults:
  assumes "b < length (buffers s)" and "len < BUFFER_SIZE"
  shows "faults (append_line E b line len s) = faults s
       \<or> faults (append_line E b line len s) = insert BadStream (faults s)"
  using assms flush_buffer_faults [of E b s]
  by (auto simp add: append_line_def Let_def flush_buffer_cells)

lemma append_line_after_flush:
  assumes "b < length (buffers s)" and "len < BUFFER_SIZE"
    and "BUFFER_SIZE \<le> used (buffers s ! b) + len"
  shows "append_line E b line len s = append_line E b line len (flush_buffer E b s)"
  using assms by (simp add: append_line_def Let_def)

lemma write_record_fields [simp]:
  "ThreadCNT (write_record E b path st pino dep fc ds s) = ThreadCNT s"
  "totalTHRDS (write_record E b path st pino dep fc ds s) = totalTHRDS s"
  "tdslot (write_record E b path st pino dep fc ds s) = tdslot s"
  "SNAPSHOT (write_record E b path st pino dep fc ds s) = SNAPSHOT s"
  "stacks (write_record E b path st pino dep fc ds s) = stacks s"
  "length (buffers (write_record E b path st pino dep fc ds s)) = length (buffers s)"
  by (simp_all add: write_record_def Let_def)

lemma write_record_other [simp]:
  "b' \<noteq> b \<Longrightarrow> buffers (write_record E b path st pino dep fc ds s) ! b' = buffers s ! b'"
  by (simp add: write_record_def Let_def)

text \<open>\<open>write_record\<close> in terms of the encoded line.\<close>

lemma write_record_unfold:
  "write_record E b path st pino dep fc ds s =
     log_event (EvRecord b path st pino dep fc ds)
       (append_line E b (take (2 * MAXPATH - 1) (record_line path st pino dep fc ds) @ [NUL])
          (length (record_line path st pino dep fc ds))
          (fault_if (2 * MAXPATH \<le> length (record_line path st pino dep fc ds)) LineTruncated
            (fault_if (256 \<le> length (csv_escape (ext_of (filename_of path)))) EscExtOverflow
              (fault_if (2 * MAXPATH \<le> length (csv_escape (filename_of path))) EscNameOverflow s))))"
  by (simp add: write_record_def record_line_def Let_def)

text \<open>
  When neither \<open>csv_escape\<close> nor \<open>snprintf\<close> runs out of its array, \<open>write_record\<close> is the
  append of the encoded line.
\<close>

lemma write_record_sized:
  assumes "length (csv_escape (filename_of path)) < 2 * MAXPATH"
    and "length (csv_escape (ext_of (filename_of path))) < 256"
    and "length (record_line path st pino dep fc ds) < 2 * MAXPATH"
  shows "write_record E b path st pino dep fc ds s =
     log_event (EvRecord b path st pino dep fc ds)
       (append_line E b (record_line path st pino dep fc ds)
          (length (record_line path st pino dep fc ds)) s)"
  using assms by (simp add: write_record_unfold fault_if_def append_line_def Let_def)

lemma append_line_fits:
  assumes "b < length (buffers s)" and "used (buffers s ! b) + length line < BUFFER_SIZE"
  shows "append_line E b line (length line) s =
           s\<lparr>buffers := (buffers s)[b := (buffers s ! b)\<lparr>csv_buffer := take (used (buffers s ! b)) (csv_buffer (buffers s ! b)) @ line,
                                            used := used (buffers s ! b) + length line\<rparr>]\<rparr>"
  using assms by (simp add: append_line_def fault_if_def Let_def)

lemma append_line_full:
  assumes "b < length (buffers s)" and "BUFFER_SIZE \<le> used (buffers s ! b) + length line"
    and "length line < BUFFER_SIZE"
  shows "append_line E b line (length line) s =
           (flush_buffer E b s)\<lparr>buffers := (buffers s)[b := (buffers s ! b)\<lparr>csv_buffer := line, used := length line\<rparr>]\<rparr>"
  using assms by (simp add: append_line_def fault_if_def Let_def flush_buffer_cells)

text \<open>
  Claim C8. Let the escaped name, the escaped extension and the encoded line fit their
  arrays in \<open>write_record\<close> (so the call has defined behaviour and the line is shorter
  than the cell), and let the sink be an open stream. Then after \<open>write_record\<close> the
  used length of the cell is below its capacity and no fault has arisen, so the copy
  into the cell did not run past its end.

  When the line fits behind the bytes of the cell, it is added there and nothing
  reaches the sink. When it would not fit, \<open>write_record\<close> is a flush of the cell
  followed by \<open>write_record\<close> on the emptied cell, which then holds this line alone; the
  flush hands the bytes of the cell to the sink before the record is in the cell: in
  the raw mode to \<open>fwrite\<close>, in the compressed mode to the compressor whose output goes
  to \<open>fwrite\<close>; and when the device has room, the stream ends with exactly these bytes.
\<close>

theorem write_record_within_cell:
  assumes b: "b < length (buffers s)"
    and name: "length (csv_escape (filename_of path)) < 2 * MAXPATH"
    and ext: "length (csv_escape (ext_of (filename_of path))) < 256"
    and len: "length (record_line path st pino dep fc ds) < 2 * MAXPATH"
    and out: "output_file s = Some f" "\<not> fclosed f"
  shows
    "let line = record_line path st pino dep fc ds;
         B = buffers s ! b;
         bytes = take (used B) (csv_buffer B);
         s' = write_record E b path st pino dep fc ds s
     in length line < BUFFER_SIZE
        \<and> used (buffers s' ! b) < BUFFER_SIZE
        \<and> faults s' = faults s
        \<and> (used B + length line < BUFFER_SIZE \<longrightarrow>
             s' = s\<lparr>buffers := (buffers s)[b := B\<lparr>csv_buffer := bytes @ line, used := used B + length line\<rparr>],
                    trace := trace s @ [EvRecord b path st pino dep fc ds]\<rparr>)
        \<and> (BUFFER_SIZE \<le> used B + length line \<longrightarrow>
             s' = write_record E b path st pino dep fc ds (flush_buffer E b s)
             \<and> buffers s' ! b = B\<lparr>csv_buffer := line, used := length line\<rparr>
             \<and> (case (if have_zstd E then zstd_stream s else None) of
                  None \<Rightarrow>
                    output_file s' = Some (fwrite bytes f)
                    \<and> zstd_stream s' = zstd_stream s
                    \<and> trace s' = trace s @ [EvFlush b bytes, EvFwrite bytes, EvRecord b path st pino dep fc ds]
                    \<and> (length (fdata f) + length bytes \<le> fcap f \<longrightarrow>
                          map_option fdata (output_file s') = Some (fdata f @ bytes))
                | Some z \<Rightarrow>
                    output_file s' = Some (fwrite (zstd_out E z bytes False) f)
                    \<and> zstd_stream s' = Some (z @ [bytes])
                    \<and> trace s' = trace s @ [EvFlush b bytes, EvCompress bytes (zstd_out E z bytes False),
                                             EvFwrite (zstd_out E z bytes False),
                                             EvRecord b path st pino dep fc ds]
                    \<and> (length (fdata f) + length (zstd_out E z bytes False) \<le> fcap f \<longrightarrow>
                          map_option fdata (output_file s') = Some (fdata f @ zstd_out E z bytes False))))"
proof -
  let ?line = "record_line path st pino dep fc ds"
  let ?B = "buffers s ! b"
  let ?bytes = "take (used ?B) (csv_buffer ?B)"
  let ?ev = "EvRecord b path st pino dep fc ds"
  note wr = write_record_sized [OF name ext len]
  have short: "length ?line < BUFFER_SIZE"
    using len by (simp add: MAXPATH_def BUFFER_SIZE_def)
  have fits: "write_record E b path st pino dep fc ds s
        = s\<lparr>buffers := (buffers s)[b := ?B\<lparr>csv_buffer := ?bytes @ ?line, used := used ?B + length ?line\<rparr>],
             trace := trace s @ [?ev]\<rparr>"
    if "used ?B + length ?line < BUFFER_SIZE"
    using that b by (simp add: wr append_line_fits log_event_def)
  have full: "write_record E b path st pino dep fc ds s
        = log_event ?ev
            ((flush_buffer E b s)\<lparr>buffers := (buffers s)[b := ?B\<lparr>csv_buffer := ?line, used := length ?line\<rparr>]\<rparr>)"
    if "BUFFER_SIZE \<le> used ?B + length ?line"
    using that b short by (simp add: wr append_line_full)
  have ne: "used ?B \<noteq> 0" if "BUFFER_SIZE \<le> used ?B + length ?line"
    using that short by auto
  have again: "write_record E b path st pino dep fc ds s
        = write_record E b path st pino dep fc ds (flush_buffer E b s)"
    if o: "BUFFER_SIZE \<le> used ?B + length ?line"
  proof -
    have "append_line E b ?line (length ?line) (flush_buffer E b s)
            = (flush_buffer E b s)\<lparr>buffers := (buffers s)[b := ?B\<lparr>csv_buffer := ?line, used := length ?line\<rparr>]\<rparr>"
      using b short ne [OF o] by (simp add: append_line_fits flush_buffer_cells)
    then have "write_record E b path st pino dep fc ds (flush_buffer E b s)
            = log_event ?ev
                ((flush_buffer E b s)\<lparr>buffers := (buffers s)[b := ?B\<lparr>csv_buffer := ?line, used := length ?line\<rparr>]\<rparr>)"
      by (simp only: wr)
    with full [OF o] show ?thesis by simp
  qed
  note fl = flush_buffer_sink [OF b ne out, of E]
  have cell: "buffers (write_record E b path st pino dep fc ds s) ! b
        = ?B\<lparr>csv_buffer := ?line, used := length ?line\<rparr>"
    if o: "BUFFER_SIZE \<le> used ?B + length ?line"
    using b by (simp add: full [OF o])
  have sink: "case (if have_zstd E then zstd_stream s else None) of
        None \<Rightarrow>
          output_file (write_record E b path st pino dep fc ds s) = Some (fwrite ?bytes f)
          \<and> zstd_stream (write_record E b path st pino dep fc ds s) = zstd_stream s
          \<and> trace (write_record E b path st pino dep fc ds s) = trace s @ [EvFlush b ?bytes, EvFwrite ?bytes, ?ev]
          \<and> (length (fdata f) + length ?bytes \<le> fcap f \<longrightarrow>
                map_option fdata (output_file (write_record E b path st pino dep fc ds s)) = Some (fdata f @ ?bytes))
      | Some z \<Rightarrow>
          output_file (write_record E b path st pino dep fc ds s) = Some (fwrite (zstd_out E z ?bytes False) f)
          \<and> zstd_stream (write_record E b path st pino dep fc ds s) = Some (z @ [?bytes])
          \<and> trace (write_record E b path st pino dep fc ds s)
               = trace s @ [EvFlush b ?bytes, EvCompress ?bytes (zstd_out E z ?bytes False),
                            EvFwrite (zstd_out E z ?bytes False), ?ev]
          \<and> (length (fdata f) + length (zstd_out E z ?bytes False) \<le> fcap f \<longrightarrow>
                map_option fdata (output_file (write_record E b path st pino dep fc ds s))
                  = Some (fdata f @ zstd_out E z ?bytes False))"
    if o: "BUFFER_SIZE \<le> used ?B + length ?line"
    by (cases "if have_zstd E then zstd_stream s else None")
      (simp_all add: full [OF o] fl [OF o] Let_def fwrite_fits)
  have below: "used (buffers (write_record E b path st pino dep fc ds s) ! b) < BUFFER_SIZE"
    using b short cell fits by (cases "BUFFER_SIZE \<le> used ?B + length ?line") simp_all
  have same: "faults (write_record E b path st pino dep fc ds s) = faults s"
  proof (cases "BUFFER_SIZE \<le> used ?B + length ?line")
    case True
    then show ?thesis
      by (cases "if have_zstd E then zstd_stream s else None")
        (simp_all add: full [OF True] fl [OF True] Let_def)
  next
    case False
    then show ?thesis by (simp add: fits)
  qed
  show ?thesis
    unfolding Let_def using short below same fits again cell sink by blast
qed


theorem write_record_within_cell_witness:
  "length (record_line ''/t/a.txt'' (demo_stat 101 33188 10) 100 0 (- 1) 0) = 57
   \<and> used (buffers demo_full_state ! 0) = 524280
   \<and> used (buffers (write_record demo_sys 0 ''/t/a.txt'' (demo_stat 101 33188 10) 100 0 (- 1) 0 demo_full_state) ! 0) = 57
   \<and> faults (write_record demo_sys 0 ''/t/a.txt'' (demo_stat 101 33188 10) 100 0 (- 1) 0 demo_full_state) = {}
   \<and> write_record demo_sys 0 ''/t/a.txt'' (demo_stat 101 33188 10) 100 0 (- 1) 0 demo_full_state
       = write_record demo_sys 0 ''/t/a.txt'' (demo_stat 101 33188 10) 100 0 (- 1) 0
           (flush_buffer demo_sys 0 demo_full_state)
   \<and> map_option fdata (output_file (write_record demo_sys 0 ''/t/a.txt'' (demo_stat 101 33188 10) 100 0 (- 1) 0 demo_full_state))
       = Some (''h'' @ replicate 524280 CHR ''x'')
   \<and> trace (write_record demo_sys 0 ''/t/a.txt'' (demo_stat 101 33188 10) 100 0 (- 1) 0 demo_full_state)
       = [EvFlush 0 (replicate 524280 CHR ''x''), EvFwrite (replicate 524280 CHR ''x''),
          EvRecord 0 ''/t/a.txt'' (demo_stat 101 33188 10) 100 0 (- 1) 0]
   \<and> map_option fdata (output_file (write_record demo_sys 0 ''/t/a.txt'' (demo_stat 101 33188 10) 100 0 (- 1) 0
         (demo_full_state\<lparr>zstd_stream := Some []\<rparr>)))
       = Some (''h'' @ ''<'' @ replicate 524280 CHR ''x'' @ ''>'')
   \<and> used (buffers demo_state ! 0) = 3
   \<and> used (buffers (write_record demo_sys 0 ''/t/a.txt'' (demo_stat 101 33188 10) 100 0 (- 1) 0 demo_state) ! 0) = 60
   \<and> output_file (write_record demo_sys 0 ''/t/a.txt'' (demo_stat 101 33188 10) 100 0 (- 1) 0 demo_state)
       = output_file demo_state"
proof -
  let ?st = "demo_stat 101 33188 10"
  let ?len = "length (record_line ''/t/a.txt'' ?st 100 0 (- 1) 0)"
  let ?z = "demo_full_state\<lparr>zstd_stream := Some []\<rparr>"
  let ?big = "\<lparr>fdata = ''h'', fcap = 1000000, ferror = False, fclosed = False\<rparr>"
  let ?small = "\<lparr>fdata = [], fcap = 100, ferror = False, fclosed = False\<rparr>"
  have len: "?len = 57"
    by (simp add: record_line_def model_defs demo_defs cong: let_weak_cong)
  have name: "length (csv_escape (filename_of ''/t/a.txt'')) < 2 * MAXPATH"
    and ext: "length (csv_escape (ext_of (filename_of ''/t/a.txt''))) < 256"
    by (simp_all add: model_defs)
  have line: "?len < 2 * MAXPATH"
    by (simp add: len MAXPATH_def)
  have cells: "0 < length (buffers demo_full_state)" "0 < length (buffers demo_state)"
    "0 < length (buffers ?z)"
    by (simp_all add: demo_defs module_init_def MAXTHRDS_def)
  have out: "output_file demo_full_state = Some ?big" "output_file ?z = Some ?big"
    "output_file demo_state = Some ?small"
    by (simp_all add: demo_defs)
  have opn: "\<not> fclosed ?big" "\<not> fclosed ?small"
    by simp_all
  have cell: "buffers demo_full_state ! 0 = \<lparr>csv_buffer = replicate 524280 CHR ''x'', used = 524280\<rparr>"
    "buffers ?z ! 0 = \<lparr>csv_buffer = replicate 524280 CHR ''x'', used = 524280\<rparr>"
    "buffers demo_state ! 0 = \<lparr>csv_buffer = ''abc'', used = 3\<rparr>"
    by (simp_all add: demo_defs module_init_def MAXTHRDS_def)
  have mode: "zstd_stream demo_full_state = None" "zstd_stream ?z = Some []" "have_zstd demo_sys"
    "trace demo_full_state = []" "faults demo_full_state = {}"
    by (simp_all add: demo_defs module_init_def)
  have zout: "zstd_out demo_sys [] bytes False = ''<'' @ bytes @ ''>''" for bytes
    by (simp add: demo_sys_def)
  have over: "BUFFER_SIZE \<le> used (buffers demo_full_state ! 0) + ?len"
    "BUFFER_SIZE \<le> used (buffers ?z ! 0) + ?len"
    by (simp_all add: len cell BUFFER_SIZE_def)
  have fits: "used (buffers demo_state ! 0) + ?len < BUFFER_SIZE"
    by (simp add: len cell BUFFER_SIZE_def)
  note a = write_record_within_cell [OF cells(1) name ext line out(1) opn(1), of demo_sys, unfolded Let_def]
  note b = write_record_within_cell [OF cells(3) name ext line out(2) opn(1), of demo_sys, unfolded Let_def]
  note c = write_record_within_cell [OF cells(2) name ext line out(3) opn(2), of demo_sys, unfolded Let_def]
  note a_over = a [THEN conjunct2, THEN conjunct2, THEN conjunct2, THEN conjunct2, THEN mp, OF over(1)]
  note b_over = b [THEN conjunct2, THEN conjunct2, THEN conjunct2, THEN conjunct2, THEN mp, OF over(2)]
  note c_fits = c [THEN conjunct2, THEN conjunct2, THEN conjunct2, THEN conjunct1, THEN mp, OF fits]
  have a1: "used (buffers (write_record demo_sys 0 ''/t/a.txt'' ?st 100 0 (- 1) 0 demo_full_state) ! 0) = 57"
    using a_over [THEN conjunct2, THEN conjunct1] by (simp add: len)
  have a2: "faults (write_record demo_sys 0 ''/t/a.txt'' ?st 100 0 (- 1) 0 demo_full_state) = {}"
    using a [THEN conjunct2, THEN conjunct2, THEN conjunct1] by (simp add: mode)
  note a3 = a_over [THEN conjunct1]
  have a4: "map_option fdata (output_file (write_record demo_sys 0 ''/t/a.txt'' ?st 100 0 (- 1) 0 demo_full_state))
       = Some (''h'' @ replicate 524280 CHR ''x'')"
    and a5: "trace (write_record demo_sys 0 ''/t/a.txt'' ?st 100 0 (- 1) 0 demo_full_state)
       = [EvFlush 0 (replicate 524280 CHR ''x''), EvFwrite (replicate 524280 CHR ''x''),
          EvRecord 0 ''/t/a.txt'' ?st 100 0 (- 1) 0]"
    using a_over [THEN conjunct2, THEN conjunct2] by (simp_all add: cell mode fwrite_def Let_def)
  have b1: "map_option fdata (output_file (write_record demo_sys 0 ''/t/a.txt'' ?st 100 0 (- 1) 0 ?z))
       = Some (''h'' @ ''<'' @ replicate 524280 CHR ''x'' @ ''>'')"
    using b_over [THEN conjunct2, THEN conjunct2] by (simp add: cell mode zout fwrite_def Let_def)
  have c1: "used (buffers (write_record demo_sys 0 ''/t/a.txt'' ?st 100 0 (- 1) 0 demo_state) ! 0) = 60"
    and c2: "output_file (write_record demo_sys 0 ''/t/a.txt'' ?st 100 0 (- 1) 0 demo_state) = output_file demo_state"
    using cells(2) by (simp_all add: c_fits len cell)
  show ?thesis
    using len cell(1,3) a1 a2 a3 a4 a5 b1 c1 c2 by simp
qed


subsection \<open>The file name of a record\<close>

lemma strrchr_None_iff: "strrchr s c = None \<longleftrightarrow> c \<notin> set s"
  by (induction s) (auto split: option.splits)

lemma strrchr_last_occurrence: "c \<notin> set name \<Longrightarrow> strrchr (pre @ c # name) c = Some (c # name)"
proof (induction pre)
  case Nil
  then have "strrchr name c = None" by (simp add: strrchr_None_iff)
  then show ?case by simp
next
  case (Cons x pre)
  then show ?case by simp
qed

lemma filename_of_no_separator: "CHR ''/'' \<notin> set path \<Longrightarrow> filename_of path = path"
proof -
  assume "CHR ''/'' \<notin> set path"
  then have "strrchr path CHR ''/'' = None" by (simp add: strrchr_None_iff)
  then show ?thesis by (simp add: filename_of_def)
qed

lemma filename_of_after_separator:
  "CHR ''/'' \<notin> set name \<Longrightarrow> filename_of (pre @ CHR ''/'' # name) = name"
  by (simp add: filename_of_def strrchr_last_occurrence)

lemma filename_of_child:
  assumes "CHR ''/'' \<notin> set name" and "length dir + 1 + length name < MAXPATH"
  shows "filename_of (fullpath_of dir name) = name"
proof -
  have "fullpath_of dir name = dir @ ''/'' @ name"
    using assms(2) by (simp add: fullpath_of_def)
  with assms(1) show ?thesis
    by (simp add: filename_of_after_separator)
qed

lemma filename_of_suffix: "\<exists>pre. path = pre @ filename_of path \<and> CHR ''/'' \<notin> set (filename_of path)
   \<and> (pre = [] \<or> last pre = CHR ''/'')"
proof (cases "CHR ''/'' \<in> set path")
  case False
  then show ?thesis by (simp add: filename_of_no_separator)
next
  case True
  then obtain pre name where p: "path = pre @ CHR ''/'' # name" and n: "CHR ''/'' \<notin> set name"
    by (meson split_list_last)
  have "filename_of path = name"
    using filename_of_after_separator [OF n, of pre] p by simp
  with p n show ?thesis
    by (intro exI [of _ "pre @ [CHR ''/'']"]) simp
qed

lemma filename_of_empty_iff: "filename_of path = [] \<longleftrightarrow> path = [] \<or> last path = CHR ''/''"
proof (cases "CHR ''/'' \<in> set path")
  case False
  then show ?thesis
    by (cases path rule: rev_cases) (auto simp add: filename_of_no_separator)
next
  case True
  then obtain pre name where p: "path = pre @ CHR ''/'' # name" and n: "CHR ''/'' \<notin> set name"
    by (meson split_list_last)
  have f: "filename_of path = name"
    using filename_of_after_separator [OF n, of pre] p by simp
  show ?thesis
  proof (cases name rule: rev_cases)
    case Nil
    with p f show ?thesis by simp
  next
    case (snoc ys y)
    with p f n show ?thesis by auto
  qed
qed

text \<open>
  Claim C6, as the code has it. The name \<open>write_record\<close> derives from a path is the
  path itself when it holds no separator, and otherwise what follows its last
  separator; this is so for the root of the traversal too, whose path is not used
  verbatim. For an entry \<open>name\<close> read in a directory \<open>dir\<close>, with a composed path below
  \<open>MAXPATH\<close>, it is \<open>name\<close> and not empty. It is empty exactly for an empty path and for
  a path that ends in the separator. The encoded line carries it, with quotes doubled,
  as its fourth field.
\<close>

theorem filename_field:
  "(CHR ''/'' \<notin> set path \<longrightarrow> filename_of path = path)
   \<and> (CHR ''/'' \<notin> set name \<longrightarrow> filename_of (pre @ ''/'' @ name) = name)
   \<and> (name \<noteq> [] \<and> CHR ''/'' \<notin> set name \<and> length dir + 1 + length name < MAXPATH \<longrightarrow>
        filename_of (fullpath_of dir name) = name \<and> filename_of (fullpath_of dir name) \<noteq> [])
   \<and> (filename_of path = [] \<longleftrightarrow> path = [] \<or> last path = CHR ''/'')
   \<and> (\<exists>post. record_line path st pino dep fc ds =
        dec (st_ino st) @ '','' @ dec pino @ '','' @ sdec dep @ '','' @
        [dquote] @ csv_escape (filename_of path) @ [dquote] @ post)"
  by (simp add: filename_of_no_separator filename_of_after_separator filename_of_child
      filename_of_empty_iff record_line_def fmt_line_def)

theorem filename_field_witness:
  "filename_of ''t'' = ''t''
   \<and> filename_of (''/t'' @ ''/'' @ ''a.txt'') = ''a.txt''
   \<and> filename_of (fullpath_of ''/t'' ''a.txt'') = ''a.txt''
   \<and> filename_of ''/t/'' = []
   \<and> filename_of ''/e'' \<noteq> []"
proof -
  note inst1 = filename_field [where path = "''t''" and name = "''a.txt''" and pre = "''/t''" and dir = "''/t''"]
  note inst2 = filename_field [where path = "''/t/''" and name = "''a.txt''" and pre = "''/t''" and dir = "''/t''"]
  note inst3 = filename_field [where path = "''/e''" and name = "''a.txt''" and pre = "''/t''" and dir = "''/t''"]
  have a: "filename_of ''t'' = ''t''"
    using inst1 by simp
  have b: "filename_of (''/t'' @ ''/'' @ ''a.txt'') = ''a.txt''"
    using inst1 by simp
  have c: "filename_of (fullpath_of ''/t'' ''a.txt'') = ''a.txt''"
    using inst1 by (simp add: MAXPATH_def)
  have d: "filename_of ''/t/'' = []"
    using inst2 by simp
  have e: "filename_of ''/e'' \<noteq> []"
    using inst3 by simp
  from a b c d e show ?thesis by blast
qed

text \<open>
  The directory of 4094 bytes: \<open>snprintf\<close> cuts the path of every child behind the
  separator, and the name derived from it is empty.
\<close>

lemma long_dir_length [simp]: "length long_dir = 4094"
  by (simp add: long_dir_def)

lemma long_dir_child [simp]:
  "fullpath_of long_dir d = long_dir @ ''/''"
  "fullpath_of (long_dir @ ''/'') d = long_dir @ ''/''"
  by (simp_all add: fullpath_of_def MAXPATH_def)

lemma long_dir_name [simp]: "filename_of (long_dir @ ''/'') = []"
  by (simp add: filename_of_empty_iff)

text \<open>
  The claim as written fails in two ways. It lets the root's summary record carry
  the root path verbatim: the walk of the empty directory \<open>/e\<close> writes one record, and
  its fourth field is \<open>"e"\<close>, not \<open>"/e"\<close>. And it lets no other record have an empty
  name: in the walk of the directory of 4094 bytes the thread of the first slot claimed
  walks the child path, cut behind the separator; when it has written its summary
  record and flushed its cell, no fault has arisen and the sink holds, behind the
  header, a record whose fourth field is empty.
\<close>

theorem filename_counterexample:
  "map_option (\<lambda>p. map_option fdata (output_file (snd p)))
     (csv_write demo_sys ''/e'' ''out.csv'' 8 1 0
        [Worker 0, Worker 0, Worker 0, Worker 0, Worker 0, Worker 0, Poll] module_init)
     = Some (Some (header @ ''300,0,-1,'' @ [dquote] @ ''e'' @ [dquote] @ '','' @ [dquote] @ [dquote] @
                   '',7,7,4096,1,8,1,'' @ [dquote] @ ''40755'' @ [dquote] @ '',5,5,5,0,0'' @ [newline]))
   \<and> filename_of ''/e'' = ''e''
   \<and> filename_of ''/e'' \<noteq> ''/e''
   \<and> length long_dir < MAXPATH
   \<and> fullpath_of long_dir ''x'' = long_dir @ ''/''
   \<and> filename_of (fullpath_of long_dir ''x'') = []
   \<and> faults (run long_sys [0, 0, 0, 0, 1, 1, 1, 1, 1, 1]
               (snd (csv_write_init long_sys long_dir ''out.csv'' 1 0 module_init))) = {}
   \<and> dname (tdslot (run long_sys [0, 0, 0, 0, 1, 1, 1, 1, 1, 1]
               (snd (csv_write_init long_sys long_dir ''out.csv'' 1 0 module_init))) ! 1)
       = fullpath_of long_dir ''x''
   \<and> map_option fdata (output_file (run long_sys [0, 0, 0, 0, 1, 1, 1, 1, 1, 1]
               (snd (csv_write_init long_sys long_dir ''out.csv'' 1 0 module_init))))
       = Some (header @ ''500,500,0,'' @ [dquote] @ [dquote] @ '','' @ [dquote] @ [dquote] @
               '',7,7,4096,1,8,1,'' @ [dquote] @ ''40755'' @ [dquote] @ '',5,5,5,1,0'' @ [newline])"
proof -
  have root: "map_option (\<lambda>p. map_option fdata (output_file (snd p)))
     (csv_write demo_sys ''/e'' ''out.csv'' 8 1 0
        [Worker 0, Worker 0, Worker 0, Worker 0, Worker 0, Worker 0, Poll] module_init)
     = Some (Some (header @ ''300,0,-1,'' @ [dquote] @ ''e'' @ [dquote] @ '','' @ [dquote] @ [dquote] @
                   '',7,7,4096,1,8,1,'' @ [dquote] @ ''40755'' @ [dquote] @ '',5,5,5,0,0'' @ [newline]))"
    "filename_of ''/e'' = ''e''"
    by (simp_all add: model_defs demo_defs cong: let_weak_cong)
  have cut: "faults (run long_sys [0, 0, 0, 0, 1, 1, 1, 1, 1, 1]
               (snd (csv_write_init long_sys long_dir ''out.csv'' 1 0 module_init))) = {}"
    "dname (tdslot (run long_sys [0, 0, 0, 0, 1, 1, 1, 1, 1, 1]
               (snd (csv_write_init long_sys long_dir ''out.csv'' 1 0 module_init))) ! 1)
       = long_dir @ ''/''"
    "map_option fdata (output_file (run long_sys [0, 0, 0, 0, 1, 1, 1, 1, 1, 1]
               (snd (csv_write_init long_sys long_dir ''out.csv'' 1 0 module_init))))
       = Some (header @ ''500,500,0,'' @ [dquote] @ [dquote] @ '','' @ [dquote] @ [dquote] @
               '',7,7,4096,1,8,1,'' @ [dquote] @ ''40755'' @ [dquote] @ '',5,5,5,1,0'' @ [newline])"
    by (simp_all add: core_defs long_sys_def demo_sys_def demo_stat_def cong: let_weak_cong)
  from root cut show ?thesis
    by (simp add: MAXPATH_def)
qed

subsection \<open>The early return of the entry point\<close>

lemma fwrite_fresh:
  "fwrite bytes \<lparr>fdata = [], fcap = cap, ferror = False, fclosed = False\<rparr>
     = \<lparr>fdata = take cap bytes, fcap = cap, ferror = (cap < length bytes), fclosed = False\<rparr>"
  by (auto simp add: fwrite_def Let_def min_def)

lemma csv_write_init_lstat_fails:
  assumes "fs_fopen E output = Some cap" and "fs_lstat E top_dir = None"
  shows "fst (csv_write_init E top_dir output ig compress g) = Some (OSError top_dir)"
    and "output_file (snd (csv_write_init E top_dir output ig compress g))
           = Some \<lparr>fdata = take cap header, fcap = cap, ferror = (cap < length header), fclosed = True\<rparr>"
    and "stacks (snd (csv_write_init E top_dir output ig compress g)) = stacks g"
    and "trace (snd (csv_write_init E top_dir output ig compress g)) = trace g @ [EvFwrite header]"
  using assms
  by (simp_all add: csv_write_init_def Let_def fwrite_output_def fclose_output_def fwrite_fresh)

text \<open>
  Claim C10. When the sink opens and \<open>lstat\<close> of the root fails, \<open>csv_write\<close> returns
  the \<open>OSError\<close> for the root path, whatever the schedule; by then the header has been
  handed to \<open>fwrite\<close> (it is the only event of the call), the stream is closed and holds
  the header (all of it when the device takes that many bytes), and no thread has been
  started: the call stacks are those before the call.
\<close>

theorem root_lstat_failure:
  assumes "fs_fopen E output = Some cap" and "fs_lstat E top_dir = None"
  shows "\<exists>s'. csv_write E top_dir output max_threads ig compress sch g = Some (Inl (OSError top_dir), s')
           \<and> output_file s' = Some \<lparr>fdata = take cap header, fcap = cap,
                                     ferror = (cap < length header), fclosed = True\<rparr>
           \<and> (length header \<le> cap \<longrightarrow> map_option fdata (output_file s') = Some header)
           \<and> stacks s' = stacks g
           \<and> trace s' = trace g @ [EvFwrite header]"
  using csv_write_init_lstat_fails [OF assms, of ig compress g]
  by (simp add: csv_write_def Let_def)

theorem root_lstat_failure_witness:
  "map_option fst (csv_write demo_sys ''/nowhere'' ''out.csv'' 8 1 1 [] module_init) = Some (Inl (OSError ''/nowhere''))
   \<and> map_option (\<lambda>p. output_file (snd p)) (csv_write demo_sys ''/nowhere'' ''out.csv'' 8 1 1 [] module_init)
       = Some (Some \<lparr>fdata = header, fcap = 100000, ferror = False, fclosed = True\<rparr>)
   \<and> map_option (\<lambda>p. stacks (snd p)) (csv_write demo_sys ''/nowhere'' ''out.csv'' 8 1 1 [] module_init)
       = Some (replicate MAXTHRDS [])
   \<and> map_option (\<lambda>p. trace (snd p)) (csv_write demo_sys ''/nowhere'' ''out.csv'' 8 1 1 [] module_init)
       = Some [EvFwrite header]"
proof -
  have o: "fs_fopen demo_sys ''out.csv'' = Some 100000"
    by (simp add: demo_defs)
  have l: "fs_lstat demo_sys ''/nowhere'' = None"
    by (simp add: demo_defs)
  have h: "length header \<le> 100000" "take 100000 header = header"
    by (simp_all add: header_def)
  from root_lstat_failure [OF o l, of 8 1 1 "[]" module_init] h
  show ?thesis by (auto simp add: module_init_def)
qed


subsection \<open>Stacks, slots and the growth of the log\<close>

lemma set_stack_fields [simp]:
  "ThreadCNT (set_stack k fs s) = ThreadCNT s"
  "totalTHRDS (set_stack k fs s) = totalTHRDS s"
  "tdslot (set_stack k fs s) = tdslot s"
  "buffers (set_stack k fs s) = buffers s"
  "output_file (set_stack k fs s) = output_file s"
  "SNAPSHOT (set_stack k fs s) = SNAPSHOT s"
  "zstd_stream (set_stack k fs s) = zstd_stream s"
  "stacks (set_stack k fs s) = (stacks s)[k := fs]"
  "faults (set_stack k fs s) = faults s"
  "trace (set_stack k fs s) = trace s"
  by (simp_all add: set_stack_def)

lemma upd_slot_fields [simp]:
  "ThreadCNT (upd_slot j f s) = ThreadCNT s"
  "totalTHRDS (upd_slot j f s) = totalTHRDS s"
  "tdslot (upd_slot j f s) = (tdslot s)[j := f (tdslot s ! j)]"
  "buffers (upd_slot j f s) = buffers s"
  "output_file (upd_slot j f s) = output_file s"
  "SNAPSHOT (upd_slot j f s) = SNAPSHOT s"
  "zstd_stream (upd_slot j f s) = zstd_stream s"
  "stacks (upd_slot j f s) = stacks s"
  "faults (upd_slot j f s) = faults s"
  "trace (upd_slot j f s) = trace s"
  by (simp_all add: upd_slot_def)

lemma deref_Slot [simp]: "deref s (Slot j) = tdslot s ! j"
  by (simp add: deref_def)

lemma deref_Local [simp]: "deref s (Local td) = td"
  by (simp add: deref_def)

lemma deref_updates [simp]:
  "deref (s\<lparr>ThreadCNT := a\<rparr>) p = deref s p"
  "deref (s\<lparr>totalTHRDS := b\<rparr>) p = deref s p"
  "deref (s\<lparr>buffers := c\<rparr>) p = deref s p"
  "deref (s\<lparr>output_file := d\<rparr>) p = deref s p"
  "deref (s\<lparr>zstd_stream := e\<rparr>) p = deref s p"
  "deref (s\<lparr>stacks := f\<rparr>) p = deref s p"
  "deref (s\<lparr>faults := g\<rparr>) p = deref s p"
  "deref (s\<lparr>trace := h\<rparr>) p = deref s p"
  by (cases p; simp)+

lemma deref_set_stack [simp]: "deref (set_stack k fs s) p = deref s p"
  by (simp add: set_stack_def)

lemma deref_log_event [simp]: "deref (log_event e s) p = deref s p"
  by (simp add: log_event_def)

lemma extends_refl [simp]: "extends s s"
  by (simp add: extends_def)

lemma extends_trans: "extends s s' \<Longrightarrow> extends s' s'' \<Longrightarrow> extends s s''"
  by (auto simp add: extends_def)

lemma extends_eq: "trace s' = trace s \<Longrightarrow> extends s s'"
  by (simp add: extends_def)

lemma extends_set_stack [simp]: "extends s (set_stack k fs s)"
  by (simp add: extends_def)

lemma extends_upd_slot [simp]: "extends s (upd_slot j f s)"
  by (simp add: extends_def)

lemma extends_log_event [simp]: "extends s (log_event e s)"
  by (simp add: extends_def)

lemma extends_fwrite_output [simp]: "extends s (fwrite_output bs s)"
  by (simp add: extends_def fwrite_output_def fault_if_def log_event_def split: option.split)

lemma extends_compress_write [simp]: "extends s (compress_write E z i fin s)"
proof -
  have "extends s (log_event (EvCompress i (zstd_out E z i fin)) (s\<lparr>zstd_stream := Some (z @ [i])\<rparr>))"
    by (simp add: extends_def)
  then show ?thesis
    unfolding compress_write_def Let_def by (rule extends_trans) simp
qed

lemma extends_flush_buffer [simp]: "extends s (flush_buffer E b s)"
proof (cases "used (buffers s ! b) = 0")
  case True
  then show ?thesis by (simp add: flush_buffer_empty)
next
  case False
  let ?s0 = "log_event (EvFlush b (take (used (buffers s ! b)) (csv_buffer (buffers s ! b)))) s"
  have "extends s ?s0" by simp
  moreover have "extends ?s0 (case (if have_zstd E then zstd_stream ?s0 else None) of
                    Some z \<Rightarrow> compress_write E z (take (used (buffers s ! b)) (csv_buffer (buffers s ! b))) False ?s0
                  | None \<Rightarrow> fwrite_output (take (used (buffers s ! b)) (csv_buffer (buffers s ! b))) ?s0)"
    by (simp split: option.split)
  ultimately have "extends s (case (if have_zstd E then zstd_stream ?s0 else None) of
                    Some z \<Rightarrow> compress_write E z (take (used (buffers s ! b)) (csv_buffer (buffers s ! b))) False ?s0
                  | None \<Rightarrow> fwrite_output (take (used (buffers s ! b)) (csv_buffer (buffers s ! b))) ?s0)"
    by (rule extends_trans)
  with False show ?thesis
    by (simp add: flush_buffer_def Let_def extends_def)
qed

lemma extends_append_line [simp]: "extends s (append_line E b line len s)"
proof -
  have "extends s (if BUFFER_SIZE \<le> used (buffers s ! b) + len then flush_buffer E b s else s)"
    by simp
  then show ?thesis
    by (simp add: append_line_def Let_def extends_def)
qed

lemma trace_write_record:
  "\<exists>ev. trace (write_record E b path st pino dep fc ds s)
          = trace s @ ev @ [EvRecord b path st pino dep fc ds]"
proof -
  let ?s3 = "fault_if (2 * MAXPATH \<le> length (record_line path st pino dep fc ds)) LineTruncated
            (fault_if (256 \<le> length (csv_escape (ext_of (filename_of path)))) EscExtOverflow
              (fault_if (2 * MAXPATH \<le> length (csv_escape (filename_of path))) EscNameOverflow s))"
  have "extends ?s3 (append_line E b (take (2 * MAXPATH - 1) (record_line path st pino dep fc ds) @ [NUL])
          (length (record_line path st pino dep fc ds)) ?s3)"
    by simp
  then show ?thesis
    by (auto simp add: write_record_unfold extends_def)
qed

lemma extends_write_record [simp]: "extends s (write_record E b path st pino dep fc ds s)"
  using trace_write_record [of E b path st pino dep fc ds s] by (auto simp add: extends_def)


subsection \<open>The invariants are kept by every action\<close>

lemma subseq_extends: "subseq xs (trace s) \<Longrightarrow> extends s s' \<Longrightarrow> subseq xs (trace s')"
  by (auto simp add: extends_def)

lemma frame_inv_Slot: "frame_inv E s k fr \<Longrightarrow> cur fr = Slot j \<Longrightarrow> j = k"
  by (simp add: frame_inv_def)

lemma frame_inv_deref:
  assumes "frame_inv E s k fr" and "tdslot s' ! k = tdslot s ! k"
  shows "deref s' (cur fr) = deref s (cur fr)"
  using assms by (cases "cur fr") (simp_all add: frame_inv_def)

lemma frame_inv_stable:
  assumes "frame_inv E s k fr"
    and "tdslot s' ! k = tdslot s ! k"
    and "SNAPSHOT s' = SNAPSHOT s"
    and "extends s s'"
  shows "frame_inv E s' k fr"
proof -
  have d: "deref s' (cur fr) = deref s (cur fr)"
    using assms(1,2) by (rule frame_inv_deref)
  have l: "loop_inv E (SNAPSHOT s) (trace s') c fr" if "loop_inv E (SNAPSHOT s) (trace s) c fr" for c
    using that assms(4) by (auto simp add: loop_inv_def intro: subseq_extends)
  from assms(1) show ?thesis
    unfolding frame_inv_def d assms(2,3) using l by (auto split: tdref.splits)
qed

lemma stack_inv_stable:
  assumes "stack_inv E s k"
    and "stacks s' ! k = stacks s ! k"
    and "tdslot s' ! k = tdslot s ! k"
    and "buffers s' ! k = buffers s ! k"
    and "totalTHRDS s \<le> totalTHRDS s'"
    and "SNAPSHOT s' = SNAPSHOT s"
    and "extends s s'"
  shows "stack_inv E s' k"
proof -
  have "frame_inv E s' k fr" if "fr \<in> set (stacks s ! k)" for fr
    using assms(1) that frame_inv_stable [OF _ assms(3,6,7)] by (simp add: stack_inv_def)
  with assms(1,5) show ?thesis
    unfolding stack_inv_def assms(2,3,4) by auto
qed

lemma stack_inv_top:
  assumes "stack_inv E s k" and "stacks s ! k = fr # rest"
  shows "frame_inv E s k fr"
    and "\<forall>f \<in> set rest. frame_inv E s k f"
    and "0 \<le> THRDid (tdslot s ! k)"
    and "THRDid (tdslot s ! k) < totalTHRDS s"
    and "cur (last (fr # rest)) = Slot k"
    and "\<forall>f \<in> set (butlast (fr # rest)). \<exists>td. cur f = Local td"
    and "\<forall>f \<in> set rest. pc f = InLoop"
    and "pc fr = AtRelease \<longrightarrow> used (buffers s ! k) = 0"
  using assms unfolding stack_inv_def by simp_all

lemma stack_invI:
  assumes "stacks s ! k = fs"
    and "\<forall>f \<in> set fs. frame_inv E s k f"
    and "fs \<noteq> [] \<longrightarrow> 0 \<le> THRDid (tdslot s ! k) \<and> THRDid (tdslot s ! k) < totalTHRDS s
           \<and> cur (last fs) = Slot k"
    and "\<forall>f \<in> set (butlast fs). \<exists>td. cur f = Local td"
    and "\<forall>f \<in> set (tl fs). pc f = InLoop"
    and "\<forall>f \<in> set (take 1 fs). pc f = AtRelease \<longrightarrow> used (buffers s ! k) = 0"
  shows "stack_inv E s k"
  using assms unfolding stack_inv_def by simp

lemma stack_inv_empty: "stacks s ! k = [] \<Longrightarrow> stack_inv E s k"
  by (simp add: stack_inv_def)

lemma stack_inv_replace_top:
  assumes inv: "stack_inv E s k" and st: "stacks s ! k = fr # rest"
    and st': "stacks s' ! k = fr' # rest"
    and cur: "cur fr' = cur fr"
    and same: "tdslot s' ! k = tdslot s ! k" "totalTHRDS s \<le> totalTHRDS s'"
              "SNAPSHOT s' = SNAPSHOT s" "extends s s'"
    and top: "frame_inv E s' k fr'"
    and rel: "pc fr' = AtRelease \<longrightarrow> used (buffers s' ! k) = 0"
  shows "stack_inv E s' k"
proof (rule stack_invI [OF st'])
  note t = stack_inv_top [OF inv st]
  show "\<forall>f \<in> set (fr' # rest). frame_inv E s' k f"
    using top t(2) frame_inv_stable [OF _ same(1,3,4)] by auto
  show "fr' # rest \<noteq> [] \<longrightarrow> 0 \<le> THRDid (tdslot s' ! k) \<and> THRDid (tdslot s' ! k) < totalTHRDS s'
          \<and> cur (last (fr' # rest)) = Slot k"
    using t(3,4,5) same(1,2) cur by (cases rest) auto
  show "\<forall>f \<in> set (butlast (fr' # rest)). \<exists>td. cur f = Local td"
    using t(6) cur by (cases rest) auto
  show "\<forall>f \<in> set (tl (fr' # rest)). pc f = InLoop"
    using t(7) by simp
  show "\<forall>f \<in> set (take 1 (fr' # rest)). pc f = AtRelease \<longrightarrow> used (buffers s' ! k) = 0"
    using rel by simp
qed

lemma wfI_own:
  assumes "wellformed E s" and "k < MAXTHRDS"
    and "length (tdslot s') = MAXTHRDS" "length (buffers s') = MAXTHRDS" "length (stacks s') = MAXTHRDS"
    and "\<And>k'. k' \<noteq> k \<Longrightarrow> stacks s' ! k' = stacks s ! k'"
    and "\<And>k'. k' \<noteq> k \<Longrightarrow> buffers s' ! k' = buffers s ! k'"
    and "tdslot s' = tdslot s" "totalTHRDS s' = totalTHRDS s" "SNAPSHOT s' = SNAPSHOT s"
    and "extends s s'"
    and "stack_inv E s' k"
  shows "wellformed E s'"
proof -
  have "stack_inv E s' k'" if "k' < MAXTHRDS" for k'
  proof (cases "k' = k")
    case True
    with assms(12) show ?thesis by simp
  next
    case False
    have "stack_inv E s k'" using assms(1) that by (simp add: wellformed_def)
    then show ?thesis
      using assms(6) [OF False] assms(7) [OF False] assms(8,9,10,11)
      by (intro stack_inv_stable [of E s k' s']) simp_all
  qed
  with assms show ?thesis by (simp add: wellformed_def)
qed

lemma spec_fcount_snoc:
  "spec_fcount E snap dir (xs @ [d]) = spec_fcount E snap dir xs + (if counted E snap dir d then 1 else 0)"
  by (simp add: spec_fcount_def)

lemma spec_dirsum_snoc:
  "spec_dirsum E snap dir (xs @ [d])
     = spec_dirsum E snap dir xs
       + (if counted_file E snap dir d then st_size (stat_at E (fullpath_of dir d)) else 0)"
  by (simp add: spec_dirsum_def)

lemma entry_events_snoc:
  "entry_events E snap b dir ino dep (xs @ [d])
     = entry_events E snap b dir ino dep xs
       @ (if counted_file E snap dir d
          then [EvRecord b (fullpath_of dir d) (stat_at E (fullpath_of dir d)) ino dep (- 1) 0] else [])"
  by (simp add: entry_events_def)

lemma readdir_Some:
  "readdir dp = Some (d, dp') \<longleftrightarrow>
     d_pos dp < length (d_ents dp) \<and> d = d_ents dp ! d_pos dp \<and> dp' = dp\<lparr>d_pos := Suc (d_pos dp)\<rparr>"
  by (auto simp add: readdir_def)


text \<open>One more entry has been read.\<close>

lemma loop_inv_advance:
  assumes inv: "loop_inv E snap tr c fr"
    and rd: "readdir (dirp fr) = Some (d, dp)"
    and dirp: "dirp fr' = dp"
    and cnt: "localCnt fr' = localCnt fr + (if counted E snap (dname c) d then 1 else 0)"
    and sz: "localSz fr' = localSz fr
               + (if counted_file E snap (dname c) d then st_size (stat_at E (fullpath_of (dname c) d)) else 0)"
    and sub: "subseq (entry_events E snap (buf c) (dname c) (st_ino (pstat c)) (depth c)
                 (take (d_pos (dirp fr)) (d_ents (dirp fr)) @ [d])) tr'"
  shows "loop_inv E snap tr' c fr'"
proof -
  from rd have pos: "d_pos (dirp fr) < length (d_ents (dirp fr))"
    and d: "d = d_ents (dirp fr) ! d_pos (dirp fr)"
    and dp: "dp = (dirp fr)\<lparr>d_pos := Suc (d_pos (dirp fr))\<rparr>"
    by (simp_all add: readdir_Some)
  have tk: "take (d_pos (dirp fr')) (d_ents (dirp fr')) = take (d_pos (dirp fr)) (d_ents (dirp fr)) @ [d]"
    using pos d by (simp add: dirp dp take_Suc_conv_app_nth)
  from inv show ?thesis
    unfolding loop_inv_def tk
    using pos sub by (simp add: dirp dp cnt sz spec_fcount_snoc spec_dirsum_snoc)
qed

lemma deref_same: "tdslot s' = tdslot s \<Longrightarrow> deref s' p = deref s p"
  by (cases p) simp_all

lemma frame_inv_same_slots:
  assumes "tdslot s' = tdslot s" and "SNAPSHOT s' = SNAPSHOT s"
  shows "frame_inv E s' k fr' \<longleftrightarrow>
           buf (deref s (cur fr')) = k
         \<and> THRDid (deref s (cur fr')) = THRDid (tdslot s ! k)
         \<and> (case cur fr' of Slot j \<Rightarrow> j = k \<and> flag (tdslot s ! k) = 0 | Local td \<Rightarrow> 0 < flag td)
         \<and> (pc fr' = AtOpen \<longrightarrow> localCnt fr' = 0 \<and> localSz fr' = 0)
         \<and> (pc fr' = AtRelease \<longrightarrow> flag (deref s (cur fr')) = 0)
         \<and> (pc fr' = InLoop \<longrightarrow> loop_inv E (SNAPSHOT s) (trace s') (deref s (cur fr')) fr')"
  by (cases "cur fr'") (simp_all add: frame_inv_def assms deref_same [OF assms(1)])

lemma wf_sizes:
  assumes "wellformed E s"
  shows "length (tdslot s) = MAXTHRDS" "length (buffers s) = MAXTHRDS" "length (stacks s) = MAXTHRDS"
    and "0 \<le> totalTHRDS s"
  using assms by (simp_all add: wellformed_def)

lemma wf_stack_inv: "wellformed E s \<Longrightarrow> k < MAXTHRDS \<Longrightarrow> stack_inv E s k"
  by (simp add: wellformed_def)

lemma wf_traverse_open:
  assumes wf: "wellformed E s" and k: "k < MAXTHRDS" and st: "stacks s ! k = fr # rest"
    and pc: "pc fr = AtOpen"
  shows "wellformed E (traverse_open E k fr rest s)"
proof -
  note sz = wf_sizes [OF wf]
  note inv = wf_stack_inv [OF wf k]
  note t = stack_inv_top [OF inv st]
  let ?c = "deref s (cur fr)"
  have fi: "buf ?c = k" "THRDid ?c = THRDid (tdslot s ! k)"
    "case cur fr of Slot j \<Rightarrow> j = k \<and> flag (tdslot s ! k) = 0 | Local td \<Rightarrow> 0 < flag td"
    "localCnt fr = 0" "localSz fr = 0"
    using t(1) pc by (simp_all add: frame_inv_def)
  show ?thesis
  proof (cases "fs_opendir E (dname ?c)")
    case None
    let ?s' = "set_stack k (fr\<lparr>pc := AtCleanup\<rparr> # rest) (log_event (EvOpendir (dname ?c) False) s)"
    have "frame_inv E ?s' k (fr\<lparr>pc := AtCleanup\<rparr>)"
      using fi by (simp add: frame_inv_same_slots)
    then have "stack_inv E ?s' k"
      using sz k
      by (intro stack_inv_replace_top [OF inv st, where s' = ?s' and fr' = "fr\<lparr>pc := AtCleanup\<rparr>"])
        (simp_all add: extends_def)
    then have "wellformed E ?s'"
      using sz k by (intro wfI_own [OF wf k, where s' = ?s']) (simp_all add: extends_def)
    with None show ?thesis by (simp add: traverse_open_def)
  next
    case (Some ents)
    let ?fr' = "fr\<lparr>pc := InLoop, dirp := \<lparr>d_ents = ents, d_pos = 0\<rparr>\<rparr>"
    let ?s' = "set_stack k (?fr' # rest) (log_event (EvOpendir (dname ?c) True) s)"
    have "loop_inv E (SNAPSHOT s) (trace ?s') ?c ?fr'"
      using fi Some by (simp add: loop_inv_def spec_fcount_def spec_dirsum_def entry_events_def)
    then have "frame_inv E ?s' k ?fr'"
      using fi by (simp add: frame_inv_same_slots)
    then have "stack_inv E ?s' k"
      using sz k
      by (intro stack_inv_replace_top [OF inv st, where s' = ?s' and fr' = ?fr'])
        (simp_all add: extends_def)
    then have "wellformed E ?s'"
      using sz k by (intro wfI_own [OF wf k, where s' = ?s']) (simp_all add: extends_def)
    with Some show ?thesis by (simp add: traverse_open_def)
  qed
qed

lemma wf_traverse_cleanup:
  assumes wf: "wellformed E s" and k: "k < MAXTHRDS" and st: "stacks s ! k = fr # rest"
    and pc: "pc fr = AtCleanup"
  shows "wellformed E (traverse_cleanup E k fr rest s)"
proof -
  note sz = wf_sizes [OF wf]
  note inv = wf_stack_inv [OF wf k]
  note t = stack_inv_top [OF inv st]
  let ?c = "deref s (cur fr)"
  have fi: "buf ?c = k" "THRDid ?c = THRDid (tdslot s ! k)"
    "case cur fr of Slot j \<Rightarrow> j = k \<and> flag (tdslot s ! k) = 0 | Local td \<Rightarrow> 0 < flag td"
    using t(1) by (simp_all add: frame_inv_def)
  show ?thesis
  proof (cases "flag ?c = 0")
    case True
    let ?s1 = "set_stack k (fr\<lparr>pc := AtRelease\<rparr> # rest) s"
    let ?s' = "flush_buffer E k ?s1"
    have "frame_inv E ?s' k (fr\<lparr>pc := AtRelease\<rparr>)"
      using fi True by (simp add: frame_inv_same_slots)
    moreover have "used (buffers ?s' ! k) = 0"
      using sz k by simp
    moreover have "extends s ?s'"
      by (rule extends_trans [of s ?s1], rule extends_eq, simp, simp)
    ultimately have "stack_inv E ?s' k"
      using sz k
      by (intro stack_inv_replace_top [OF inv st, where s' = ?s' and fr' = "fr\<lparr>pc := AtRelease\<rparr>"])
        simp_all
    then have "wellformed E ?s'"
      using sz k \<open>extends s ?s'\<close> by (intro wfI_own [OF wf k, where s' = ?s']) simp_all
    with True fi(1) show ?thesis by (simp add: traverse_cleanup_def)
  next
    case False
    let ?s' = "set_stack k rest s"
    from False fi(3) obtain td where loc: "cur fr = Local td"
      by (cases "cur fr") auto
    with t(5) have ne: "rest \<noteq> []" and last: "cur (last rest) = Slot k"
      by (auto split: if_splits)
    have "stack_inv E ?s' k"
    proof (rule stack_invI [of ?s' k rest])
      show "stacks ?s' ! k = rest" using sz k by simp
      show "\<forall>f \<in> set rest. frame_inv E ?s' k f"
        using t(2) by (auto intro!: frame_inv_stable [of E s k _ ?s'] simp add: extends_def)
      show "rest \<noteq> [] \<longrightarrow> 0 \<le> THRDid (tdslot ?s' ! k) \<and> THRDid (tdslot ?s' ! k) < totalTHRDS ?s'
              \<and> cur (last rest) = Slot k"
        using t(3,4) last by simp
      show "\<forall>f \<in> set (butlast rest). \<exists>td. cur f = Local td"
        using t(6) ne by simp
      show "\<forall>f \<in> set (tl rest). pc f = InLoop"
        using t(7) by (cases rest) auto
      show "\<forall>f \<in> set (take 1 rest). pc f = AtRelease \<longrightarrow> used (buffers ?s' ! k) = 0"
        using t(7) by (cases rest) auto
    qed
    then have "wellformed E ?s'"
      using sz k by (intro wfI_own [OF wf k, where s' = ?s']) simp_all
    with False show ?thesis by (simp add: traverse_cleanup_def)
  qed
qed

lemma wf_traverse_release:
  assumes wf: "wellformed E s" and k: "k < MAXTHRDS" and st: "stacks s ! k = fr # rest"
  shows "wellformed E (traverse_release k fr s)"
proof -
  note sz = wf_sizes [OF wf]
  note inv = wf_stack_inv [OF wf k]
  note t = stack_inv_top [OF inv st]
  let ?s' = "traverse_release k fr s"
  have slots: "tdslot ?s' ! k' = tdslot s ! k'" if "k' \<noteq> k" for k'
    using that frame_inv_Slot [OF t(1)]
    by (cases "cur fr") (auto simp add: traverse_release_def Let_def)
  have stk: "stacks ?s' = (stacks s)[k := []]"
    by (cases "cur fr") (simp_all add: traverse_release_def Let_def)
  have other: "totalTHRDS ?s' = totalTHRDS s" "SNAPSHOT ?s' = SNAPSHOT s" "trace ?s' = trace s"
    "buffers ?s' = buffers s" "length (tdslot ?s') = length (tdslot s)"
    by (cases "cur fr"; simp add: traverse_release_def Let_def)+
  have "stack_inv E ?s' k'" if "k' < MAXTHRDS" for k'
  proof (cases "k' = k")
    case True
    then show ?thesis using sz k by (simp add: stack_inv_empty stk)
  next
    case False
    then show ?thesis
      using wf_stack_inv [OF wf that] slots [OF False] other
      by (intro stack_inv_stable [of E s k' ?s']) (simp_all add: stk extends_def)
  qed
  then show ?thesis
    using sz other by (simp add: wellformed_def stk)
qed

lemma find_slot_le: "slot \<le> MAXTHRDS \<Longrightarrow> find_slot tds slot \<le> MAXTHRDS"
proof (induction tds slot rule: find_slot.induct)
  case (1 tds slot)
  then show ?case by (subst find_slot.simps) auto
qed

lemma find_slot_free:
  "find_slot tds slot < MAXTHRDS \<Longrightarrow> THRDid (tds ! find_slot tds slot) = - 1"
proof (induction tds slot rule: find_slot.induct)
  case (1 tds slot)
  show ?case
  proof (cases "slot < MAXTHRDS \<and> THRDid (tds ! slot) \<noteq> - 1")
    case True
    then have eq: "find_slot tds slot = find_slot tds (slot + 1)"
      by (subst find_slot.simps) simp
    with 1 True show ?thesis by simp
  next
    case False
    then have eq: "find_slot tds slot = slot"
      by (subst find_slot.simps) auto
    with 1(2) False show ?thesis by simp
  qed
qed

text \<open>A free slot has no thread, so no invocation of a running thread points at it.\<close>

lemma free_slot_idle:
  assumes "wellformed E s" and "j < MAXTHRDS" and "THRDid (tdslot s ! j) = - 1"
  shows "stacks s ! j = []"
  using wf_stack_inv [OF assms(1,2)] assms(3) by (auto simp add: stack_inv_def)

lemma fan_out_local:
  assumes "\<not> claimed s"
  shows "fan_out E k fr rest fullpath f s =
           set_stack k
             (new_frame (Local \<lparr>dname = fullpath, pinode = st_ino (pstat (deref s (cur fr))),
                                 depth = depth (deref s (cur fr)) + 1, THRDid = THRDid (deref s (cur fr)),
                                 flag = flag (deref s (cur fr)) + 1, pstat = f, buf = buf (deref s (cur fr))\<rparr>)
              # fr # rest) s"
  using assms by (auto simp add: fan_out_def claimed_def Let_def)

lemma fan_out_claimed:
  assumes cl: "claimed s" and j: "j = find_slot (tdslot s) 0"
    and len: "length (tdslot s) = MAXTHRDS"
    and fr: "\<And>i. cur fr = Slot i \<Longrightarrow> i = k" and kj: "k \<noteq> j"
    and id: "THRDid (deref s (cur fr)) < totalTHRDS s"
  shows "fan_out E k fr rest fullpath f s =
           s\<lparr>totalTHRDS := totalTHRDS s + 1, ThreadCNT := ThreadCNT s + 1,
              tdslot := (tdslot s)[j := (tdslot s ! j)
                 \<lparr>THRDid := totalTHRDS s, flag := 0, buf := j, dname := fullpath,
                  depth := depth (deref s (cur fr)) + 1,
                  pinode := st_ino (pstat (deref s (cur fr))), pstat := f\<rparr>],
              stacks := (stacks s)[k := fr # rest, j := [new_frame (Slot j)]]\<rparr>"
proof -
  have jl: "j < length (tdslot s)"
    using cl j len by (simp add: claimed_def)
  have d: "deref (upd_slot j g s') (cur fr) = deref s' (cur fr)" for s' g
    using fr kj by (cases "cur fr") auto
  have ne: "totalTHRDS s \<noteq> THRDid (deref s (cur fr))"
    using id by simp
  have "fan_out E k fr rest fullpath f s =
          set_stack j [new_frame (Slot j)]
            (set_stack k (fr # rest)
              (upd_slot j (\<lambda>t. t\<lparr>pstat := f\<rparr>)
                (upd_slot j (\<lambda>t. t\<lparr>pinode := st_ino (pstat (deref s (cur fr)))\<rparr>)
                  (upd_slot j (\<lambda>t. t\<lparr>depth := depth (deref s (cur fr)) + 1\<rparr>)
                    (upd_slot j (\<lambda>t. t\<lparr>dname := fullpath\<rparr>)
                      ((upd_slot j (\<lambda>t. t\<lparr>THRDid := totalTHRDS s, flag := 0, buf := j\<rparr>) s)
                         \<lparr>totalTHRDS := totalTHRDS s + 1, ThreadCNT := ThreadCNT s + 1\<rparr>))))))"
    using cl jl ne
    by (simp add: fan_out_def claimed_def Let_def j [symmetric] d)
  also have "\<dots> = s\<lparr>totalTHRDS := totalTHRDS s + 1, ThreadCNT := ThreadCNT s + 1,
              tdslot := (tdslot s)[j := (tdslot s ! j)
                 \<lparr>THRDid := totalTHRDS s, flag := 0, buf := j, dname := fullpath,
                  depth := depth (deref s (cur fr)) + 1,
                  pinode := st_ino (pstat (deref s (cur fr))), pstat := f\<rparr>],
              stacks := (stacks s)[k := fr # rest, j := [new_frame (Slot j)]]\<rparr>"
    using jl by (simp add: upd_slot_def set_stack_def)
  finally show ?thesis .
qed

lemma wf_fan_out:
  assumes wf: "wellformed E s" and k: "k < MAXTHRDS" and st: "stacks s ! k = fr # rest"
    and fr1: "cur fr1 = cur fr" "pc fr1 = InLoop" "frame_inv E s k fr1"
  shows "wellformed E (fan_out E k fr1 rest fullpath f s)"
proof -
  note sz = wf_sizes [OF wf]
  note inv = wf_stack_inv [OF wf k]
  note t = stack_inv_top [OF inv st]
  let ?c = "deref s (cur fr1)"
  have fi: "buf ?c = k" "THRDid ?c = THRDid (tdslot s ! k)"
    "case cur fr1 of Slot j \<Rightarrow> j = k \<and> flag (tdslot s ! k) = 0 | Local td \<Rightarrow> 0 < flag td"
    using fr1(3) by (simp_all add: frame_inv_def)
  have flag: "0 \<le> flag ?c"
    using fi(3) by (cases "cur fr1") auto
  show ?thesis
  proof (cases "claimed s")
    case False
    let ?new = "\<lparr>dname = fullpath, pinode = st_ino (pstat ?c), depth = depth ?c + 1,
                  THRDid = THRDid ?c, flag = flag ?c + 1, pstat = f, buf = buf ?c\<rparr>"
    let ?s' = "set_stack k (new_frame (Local ?new) # fr1 # rest) s"
    have "stack_inv E ?s' k"
    proof (rule stack_invI [of ?s' k "new_frame (Local ?new) # fr1 # rest"])
      show "stacks ?s' ! k = new_frame (Local ?new) # fr1 # rest"
        using sz k by simp
      have "frame_inv E ?s' k (new_frame (Local ?new))"
        using fi flag by (simp add: frame_inv_same_slots new_frame_def)
      moreover have "frame_inv E ?s' k g" if "frame_inv E s k g" for g
        using that by (rule frame_inv_stable) simp_all
      ultimately show "\<forall>g \<in> set (new_frame (Local ?new) # fr1 # rest). frame_inv E ?s' k g"
        using fr1(3) t(2) by auto
      show "new_frame (Local ?new) # fr1 # rest \<noteq> [] \<longrightarrow>
              0 \<le> THRDid (tdslot ?s' ! k) \<and> THRDid (tdslot ?s' ! k) < totalTHRDS ?s'
              \<and> cur (last (new_frame (Local ?new) # fr1 # rest)) = Slot k"
        using t(3,4,5) fr1(1) by (cases rest) auto
      show "\<forall>g \<in> set (butlast (new_frame (Local ?new) # fr1 # rest)). \<exists>td. cur g = Local td"
        using t(6) fr1(1) by (cases rest) (auto simp add: new_frame_def)
      show "\<forall>g \<in> set (tl (new_frame (Local ?new) # fr1 # rest)). pc g = InLoop"
        using t(7) fr1(2) by simp
      show "\<forall>g \<in> set (take 1 (new_frame (Local ?new) # fr1 # rest)).
              pc g = AtRelease \<longrightarrow> used (buffers ?s' ! k) = 0"
        by (simp add: new_frame_def)
    qed
    then have "wellformed E ?s'"
      using sz k by (intro wfI_own [OF wf k, where s' = ?s']) simp_all
    with False show ?thesis by (simp add: fan_out_local)
  next
    case True
    define j where "j = find_slot (tdslot s) 0"
    have jm: "j < MAXTHRDS"
      using True by (simp add: claimed_def j_def)
    have free: "THRDid (tdslot s ! j) = - 1"
      using jm unfolding j_def by (rule find_slot_free)
    have idle: "stacks s ! j = []"
      using wf jm free by (rule free_slot_idle)
    have kj: "k \<noteq> j"
      using idle st by auto
    let ?td = "(tdslot s ! j)\<lparr>THRDid := totalTHRDS s, flag := 0, buf := j, dname := fullpath,
                  depth := depth ?c + 1, pinode := st_ino (pstat ?c), pstat := f\<rparr>"
    let ?s' = "s\<lparr>totalTHRDS := totalTHRDS s + 1, ThreadCNT := ThreadCNT s + 1,
                 tdslot := (tdslot s)[j := ?td],
                 stacks := (stacks s)[k := fr1 # rest, j := [new_frame (Slot j)]]\<rparr>"
    have eq: "fan_out E k fr1 rest fullpath f s = ?s'"
      using frame_inv_Slot [OF fr1(3)] kj t(4) fi(2)
      by (intro fan_out_claimed [OF True j_def sz(1)]) simp_all
    have "stack_inv E ?s' k'" if k': "k' < MAXTHRDS" for k'
    proof -
      consider "k' = j" | "k' = k" | "k' \<noteq> j" "k' \<noteq> k" by blast
      then show ?thesis
      proof cases
        case 1
        show ?thesis
        proof (rule stack_invI [of ?s' k' "[new_frame (Slot j)]"])
          show "stacks ?s' ! k' = [new_frame (Slot j)]"
            using 1 sz jm by simp
          show "\<forall>g \<in> set [new_frame (Slot j)]. frame_inv E ?s' k' g"
            using 1 sz jm by (simp add: frame_inv_def new_frame_def)
          show "[new_frame (Slot j)] \<noteq> [] \<longrightarrow>
                  0 \<le> THRDid (tdslot ?s' ! k') \<and> THRDid (tdslot ?s' ! k') < totalTHRDS ?s'
                  \<and> cur (last [new_frame (Slot j)]) = Slot k'"
            using 1 sz jm by (simp add: new_frame_def)
        qed (simp_all add: new_frame_def)
      next
        case 2
        have "frame_inv E ?s' k fr1"
          using kj by (intro frame_inv_stable [OF fr1(3)]) (simp_all add: extends_def)
        then show ?thesis
          unfolding 2 using sz k kj fr1(1,2)
          by (intro stack_inv_replace_top [OF inv st, where s' = ?s' and fr' = fr1])
            (simp_all add: extends_def)
      next
        case 3
        then show ?thesis
          using wf_stack_inv [OF wf k']
          by (intro stack_inv_stable [of E s k' ?s']) (simp_all add: extends_def)
      qed
    qed
    then have "wellformed E ?s'"
      using sz by (simp add: wellformed_def)
    with eq show ?thesis by simp
  qed
qed

text \<open>The three ways through one iteration of the loop.\<close>

lemma loop_body_skip:
  assumes "\<not> counted E (SNAPSHOT s) (dname (deref s (cur fr))) d"
  shows "loop_body E k fr rest d s = set_stack k (fr # rest) s"
  using assms by (auto simp add: loop_body_def counted_def Let_def split: option.split)

lemma loop_body_dir:
  assumes "counted E (SNAPSHOT s) (dname (deref s (cur fr))) d"
    and "fs_lstat E (fullpath_of (dname (deref s (cur fr))) d) = Some f"
    and "S_ISDIR (st_mode f)"
  shows "loop_body E k fr rest d s =
           fan_out E k (fr\<lparr>localCnt := localCnt fr + 1\<rparr>) rest
             (fullpath_of (dname (deref s (cur fr))) d) f s"
  using assms by (auto simp add: loop_body_def counted_def Let_def)

lemma loop_body_file:
  assumes "counted E (SNAPSHOT s) (dname (deref s (cur fr))) d"
    and "fs_lstat E (fullpath_of (dname (deref s (cur fr))) d) = Some f"
    and "\<not> S_ISDIR (st_mode f)"
  shows "loop_body E k fr rest d s =
           write_record E (buf (deref s (cur fr))) (fullpath_of (dname (deref s (cur fr))) d) f
             (st_ino (pstat (deref s (cur fr)))) (depth (deref s (cur fr))) (- 1) 0
             (set_stack k (fr\<lparr>localCnt := localCnt fr + 1, localSz := localSz fr + st_size f\<rparr> # rest) s)"
  using assms by (auto simp add: loop_body_def counted_def Let_def)

lemma deref_write_record [simp]: "deref (write_record E b path st pino dep fc ds s) p = deref s p"
  by (cases p) simp_all

lemma deref_flush_buffer [simp]: "deref (flush_buffer E b s) p = deref s p"
  by (cases p) simp_all

lemma wf_traverse_loop:
  assumes wf: "wellformed E s" and k: "k < MAXTHRDS" and st: "stacks s ! k = fr # rest"
    and pc: "pc fr = InLoop"
  shows "wellformed E (traverse_loop E k fr rest s)"
proof -
  note sz = wf_sizes [OF wf]
  note inv = wf_stack_inv [OF wf k]
  note t = stack_inv_top [OF inv st]
  let ?c = "deref s (cur fr)"
  let ?snap = "SNAPSHOT s"
  have fi: "buf ?c = k" "THRDid ?c = THRDid (tdslot s ! k)"
    "case cur fr of Slot j \<Rightarrow> j = k \<and> flag (tdslot s ! k) = 0 | Local td \<Rightarrow> 0 < flag td"
    and li: "loop_inv E ?snap (trace s) ?c fr"
    using t(1) pc by (simp_all add: frame_inv_def)
  show ?thesis
  proof (cases "readdir (dirp fr)")
    case None
    let ?s1 = "set_stack k (fr\<lparr>pc := AtCleanup\<rparr> # rest) s"
    let ?s' = "write_record E k (dname ?c) (pstat ?c) (pinode ?c) (depth ?c) (localCnt fr) (localSz fr) ?s1"
    have ext: "extends s ?s'"
      by (rule extends_trans [of s ?s1]) simp_all
    have "frame_inv E ?s' k (fr\<lparr>pc := AtCleanup\<rparr>)"
      using fi by (simp add: frame_inv_same_slots)
    then have "stack_inv E ?s' k"
      using sz k ext
      by (intro stack_inv_replace_top [OF inv st, where s' = ?s' and fr' = "fr\<lparr>pc := AtCleanup\<rparr>"])
        simp_all
    then have "wellformed E ?s'"
      using sz k ext by (intro wfI_own [OF wf k, where s' = ?s']) simp_all
    with None fi(1) show ?thesis by (simp add: traverse_loop_def Let_def)
  next
    case (Some a)
    then obtain d dp where rd: "readdir (dirp fr) = Some (d, dp)"
      by (cases a) simp
    let ?fr0 = "fr\<lparr>dirp := dp\<rparr>"
    let ?path = "fullpath_of (dname ?c) d"
    have tl: "traverse_loop E k fr rest s = loop_body E k ?fr0 rest d s"
      using rd by (simp add: traverse_loop_def Let_def)
    show ?thesis
    proof (cases "counted E ?snap (dname ?c) d")
      case False
      let ?s' = "set_stack k (?fr0 # rest) s"
      have "loop_inv E ?snap (trace s) ?c ?fr0"
        using False
        by (intro loop_inv_advance [OF li rd])
          (simp_all add: li [unfolded loop_inv_def] counted_file_def entry_events_snoc)
      then have "frame_inv E ?s' k ?fr0"
        using fi pc by (simp add: frame_inv_same_slots)
      then have "stack_inv E ?s' k"
        using sz k pc
        by (intro stack_inv_replace_top [OF inv st, where s' = ?s' and fr' = ?fr0]) simp_all
      then have "wellformed E ?s'"
        using sz k by (intro wfI_own [OF wf k, where s' = ?s']) simp_all
      with False show ?thesis by (simp add: tl loop_body_skip)
    next
      case True
      then obtain f where f: "fs_lstat E ?path = Some f"
        by (auto simp add: counted_def)
      show ?thesis
      proof (cases "S_ISDIR (st_mode f)")
        case isdir: True
        let ?fr1 = "?fr0\<lparr>localCnt := localCnt ?fr0 + 1\<rparr>"
        have nf: "\<not> counted_file E ?snap (dname ?c) d"
          using f isdir by (simp add: counted_file_def is_dir_at_def)
        have "loop_inv E ?snap (trace s) ?c ?fr1"
          using True nf
          by (intro loop_inv_advance [OF li rd])
            (simp_all add: li [unfolded loop_inv_def] entry_events_snoc)
        then have "frame_inv E s k ?fr1"
          using fi pc by (simp add: frame_inv_def)
        then have "wellformed E (fan_out E k ?fr1 rest ?path f s)"
          using pc by (intro wf_fan_out [OF wf k st]) simp_all
        with True f isdir show ?thesis by (simp add: tl loop_body_dir)
      next
        case isfile: False
        let ?fr2 = "?fr0\<lparr>localCnt := localCnt ?fr0 + 1, localSz := localSz ?fr0 + st_size f\<rparr>"
        let ?s1 = "set_stack k (?fr2 # rest) s"
        let ?s' = "write_record E k ?path f (st_ino (pstat ?c)) (depth ?c) (- 1) 0 ?s1"
        have cf: "counted_file E ?snap (dname ?c) d" and sa: "stat_at E ?path = f"
          using True f isfile by (simp_all add: counted_file_def is_dir_at_def stat_at_def)
        have ext: "extends s ?s'"
          by (rule extends_trans [of s ?s1]) simp_all
        obtain ev where tr: "trace ?s' = trace s @ ev @ [EvRecord k ?path f (st_ino (pstat ?c)) (depth ?c) (- 1) 0]"
          using trace_write_record [of E k ?path f "st_ino (pstat ?c)" "depth ?c" "- 1" 0 ?s1] by auto
        have "subseq (entry_events E ?snap k (dname ?c) (st_ino (pstat ?c)) (depth ?c)
                 (take (d_pos (dirp fr)) (d_ents (dirp fr)))) (trace s @ ev)"
          using li fi(1) by (auto simp add: loop_inv_def)
        then have sub: "subseq (entry_events E ?snap (buf ?c) (dname ?c) (st_ino (pstat ?c)) (depth ?c)
                 (take (d_pos (dirp fr)) (d_ents (dirp fr)) @ [d])) (trace ?s')"
          using cf sa fi(1) unfolding tr entry_events_snoc
          by (simp del: append_assoc add: append_assoc [symmetric])
        have "loop_inv E ?snap (trace ?s') ?c ?fr2"
          using sub
          by (intro loop_inv_advance [OF li rd]) (simp_all add: True cf sa)
        then have "frame_inv E ?s' k ?fr2"
          using fi pc by (simp add: frame_inv_same_slots)
        then have "stack_inv E ?s' k"
          using sz k ext pc
          by (intro stack_inv_replace_top [OF inv st, where s' = ?s' and fr' = ?fr2]) simp_all
        then have "wellformed E ?s'"
          using sz k ext by (intro wfI_own [OF wf k, where s' = ?s']) simp_all
        with True f isfile fi(1) show ?thesis by (simp add: tl loop_body_file)
      qed
    qed
  qed
qed

lemma wf_step:
  assumes "wellformed E s"
  shows "wellformed E (step E k s)"
proof (cases "k < length (stacks s)")
  case False
  with assms show ?thesis by (simp add: step_def)
next
  case True
  then have k: "k < MAXTHRDS"
    using wf_sizes(3) [OF assms] by simp
  show ?thesis
  proof (cases "stacks s ! k")
    case Nil
    with assms show ?thesis by (simp add: step_def)
  next
    case (Cons fr rest)
    show ?thesis
    proof (cases "pc fr")
      case AtOpen
      with wf_traverse_open [OF assms k Cons] True Cons show ?thesis
        by (simp add: step_def)
    next
      case InLoop
      with wf_traverse_loop [OF assms k Cons] True Cons show ?thesis
        by (simp add: step_def)
    next
      case AtCleanup
      with wf_traverse_cleanup [OF assms k Cons] True Cons show ?thesis
        by (simp add: step_def)
    next
      case AtRelease
      with wf_traverse_release [OF assms k Cons] True Cons show ?thesis
        by (simp add: step_def)
    qed
  qed
qed

lemma wf_run: "wellformed E s \<Longrightarrow> wellformed E (run E ks s)"
  by (induction ks arbitrary: s) (simp_all add: wf_step)

text \<open>The state in which the first thread starts.\<close>

lemma csv_write_init_started:
  assumes "fst (csv_write_init E top_dir output ig compress g) = None"
  shows "\<exists>cap root. fs_fopen E output = Some cap \<and> fs_lstat E top_dir = Some root"
  using assms by (auto simp add: csv_write_init_def Let_def split: option.splits)

lemma csv_write_init_fields:
  fixes g :: gstate and ig compress :: int
  assumes "fs_fopen E output = Some cap" and "fs_lstat E top_dir = Some root"
  defines "s0 \<equiv> snd (csv_write_init E top_dir output ig compress g)"
  shows "tdslot s0 = (map (\<lambda>t. t\<lparr>THRDid := - 1\<rparr>) (tdslot g))
           [0 := (tdslot g ! 0)\<lparr>dname := top_dir, THRDid := 0, flag := 0, depth := - 1, pinode := 0,
                                 buf := 0, pstat := root\<rparr>]"
    and "buffers s0 = map (\<lambda>B. B\<lparr>used := 0\<rparr>) (buffers g)"
    and "stacks s0 = (stacks g)[0 := [new_frame (Slot 0)]]"
    and "totalTHRDS s0 = 1" and "ThreadCNT s0 = 1" and "SNAPSHOT s0 = ig"
    and "trace s0 = trace g @ [EvFwrite header]"
    and "zstd_stream s0 = (if have_zstd E \<and> compress \<noteq> 0
                           then (if zstd_create_ok E then Some [] else None) else zstd_stream g)"
    and "output_file s0 = Some \<lparr>fdata = take cap header, fcap = cap, ferror = (cap < length header), fclosed = False\<rparr>"
    and "faults s0 = (if MAXPATH \<le> length top_dir then insert DnameOverflow (faults g) else faults g)"
  using assms(1,2) unfolding s0_def
  by (cases "0 < length (tdslot g)";
      simp add: csv_write_init_def Let_def fwrite_output_def fwrite_fresh upd_slot_def set_stack_def
        log_event_def fault_if_def)+

lemma wf_init:
  assumes idle: "idle g" and start: "fst (csv_write_init E top_dir output ig compress g) = None"
  shows "wellformed E (snd (csv_write_init E top_dir output ig compress g))"
proof -
  let ?s0 = "snd (csv_write_init E top_dir output ig compress g)"
  from csv_write_init_started [OF start] obtain cap root
    where o: "fs_fopen E output = Some cap" and l: "fs_lstat E top_dir = Some root"
    by blast
  note f = csv_write_init_fields [OF o l, of ig compress g]
  have len: "length (tdslot g) = MAXTHRDS" "length (buffers g) = MAXTHRDS" "stacks g = replicate MAXTHRDS []"
    using idle by (simp_all add: idle_def)
  have m: "0 < MAXTHRDS" by (simp add: MAXTHRDS_def)
  have "stack_inv E ?s0 k" if "k < MAXTHRDS" for k
  proof (cases "k = 0")
    case True
    show ?thesis
    proof (rule stack_invI [of ?s0 k "[new_frame (Slot 0)]"])
      show "stacks ?s0 ! k = [new_frame (Slot 0)]"
        using True m by (simp add: f len)
      show "\<forall>fr \<in> set [new_frame (Slot 0)]. frame_inv E ?s0 k fr"
        using True m by (simp add: frame_inv_def new_frame_def f len)
      show "[new_frame (Slot 0)] \<noteq> [] \<longrightarrow>
              0 \<le> THRDid (tdslot ?s0 ! k) \<and> THRDid (tdslot ?s0 ! k) < totalTHRDS ?s0
              \<and> cur (last [new_frame (Slot 0)]) = Slot k"
        using True m by (simp add: new_frame_def f len)
    qed (simp_all add: new_frame_def)
  next
    case False
    with that show ?thesis
      by (intro stack_inv_empty) (simp add: f len)
  qed
  then show ?thesis
    by (simp add: wellformed_def f len)
qed

lemma step_top:
  assumes "k < length (stacks s)" and "stacks s ! k = fr # rest"
  shows "step E k s =
           (case pc fr of
              AtOpen \<Rightarrow> traverse_open E k fr rest s
            | InLoop \<Rightarrow> traverse_loop E k fr rest s
            | AtCleanup \<Rightarrow> traverse_cleanup E k fr rest s
            | AtRelease \<Rightarrow> traverse_release k fr s)"
  using assms by (simp add: step_def)


subsection \<open>The example walk\<close>

lemma idle_module_init: "idle module_init"
  by (simp add: idle_def module_init_def)

lemma demo_start_wf: "wellformed demo_sys (run demo_sys ks (demo_start ig))"
proof -
  have "fst (csv_write_init demo_sys ''/t'' ''out.csv'' ig 0 module_init) = None"
    by (simp add: csv_write_init_def demo_defs Let_def)
  then show ?thesis
    unfolding demo_start_def by (intro wf_run wf_init idle_module_init)
qed

lemma demo_stack_1: "stacks (run demo_sys [0] (demo_start ig)) ! 0 = [demo_frame 0 0 0]"
  by (simp add: model_defs demo_defs cong: let_weak_cong)

lemma demo_stack_3: "stacks (run demo_sys [0, 0, 0] (demo_start ig)) ! 0 = [demo_frame 2 0 0]"
  by (simp add: model_defs demo_defs cong: let_weak_cong)

lemma demo_stack_6: "stacks (run demo_sys [0, 0, 0, 0, 0, 0] (demo_start 1)) ! 0 = [demo_frame 5 2 10]"
  by (simp add: model_defs demo_defs cong: let_weak_cong)

lemma demo_snapshot: "SNAPSHOT (run demo_sys ks (demo_start ig)) = ig"
proof -
  have "SNAPSHOT (step demo_sys k s) = SNAPSHOT s" for k s
    by (simp add: step_def traverse_open_def traverse_loop_def loop_body_def fan_out_def
        traverse_cleanup_def traverse_release_def Let_def
        split: list.split ppoint.split option.split tdref.split)
  then have "SNAPSHOT (run demo_sys ks s) = SNAPSHOT s" for s
    by (induction ks arbitrary: s) simp_all
  then show ?thesis
    by (simp add: demo_start_def csv_write_init_def demo_defs Let_def fwrite_output_def)
qed

lemma demo_root: "deref (run demo_sys [0] (demo_start ig)) (Slot 0) =
    \<lparr>dname = ''/t'', pinode = 0, depth = - 1, THRDid = 0, flag = 0, pstat = demo_stat 100 16877 4096, buf = 0\<rparr>"
  by (simp add: model_defs demo_defs cong: let_weak_cong)

lemma demo_dname_3: "dname (tdslot (run demo_sys [0, 0, 0] (demo_start ig)) ! 0) = ''/t''"
  by (simp add: model_defs demo_defs cong: let_weak_cong)

lemma demo_dname_6: "dname (tdslot (run demo_sys [0, 0, 0, 0, 0, 0] (demo_start 1)) ! 0) = ''/t''"
  by (simp add: model_defs demo_defs cong: let_weak_cong)

lemma demo_walk_wf:
  assumes "fs_lstat demo_sys root \<noteq> None"
  shows "wellformed demo_sys (run demo_sys ks (demo_walk root))"
proof -
  have "fst (csv_write_init demo_sys root ''out.csv'' 1 0 module_init) = None"
    using assms by (auto simp add: csv_write_init_def demo_sys_def Let_def)
  then show ?thesis
    unfolding demo_walk_def by (intro wf_run wf_init idle_module_init)
qed


subsection \<open>The events of an action\<close>







lemma fan_out_trace [simp]: "trace (fan_out E k fr rest fullpath f s) = trace s"
  by (simp add: fan_out_def Let_def)

lemma fan_out_SNAPSHOT [simp]: "SNAPSHOT (fan_out E k fr rest fullpath f s) = SNAPSHOT s"
  by (simp add: fan_out_def Let_def)



lemma pool_schedule_list:
  "pool_schedule = [0, 0, 0, 0, 0, 0, 0, 0, 0, 0, 0, 0, 0, 0, 0, 0, 0,
                    0, 0, 0, 0, 0, 0, 0, 0, 0, 0, 0, 0, 0, 0, 0, 0, 0]"
  by (simp add: pool_schedule_def numeral_eq_Suc)

text \<open>The pool is saturated: 32 threads run, and the thread of slot 0 is two invocations deep.\<close>

lemma demo_saturated:
  "let s = run demo_sys pool_schedule (demo_walk ''/p'')
   in stacks s ! 0 = [pool_nested, pool_root] \<and> ThreadCNT s = 32 \<and> totalTHRDS s = 32"
  by (simp add: pool_schedule_list model_defs demo_defs cong: let_weak_cong)

subsection \<open>The end of an invocation\<close>

text \<open>A thread is the invocation on its slot, and the only one with \<open>flag = 0\<close>.\<close>

lemma thread_frame:
  assumes wf: "wellformed E s" and k: "k < MAXTHRDS" and st: "stacks s ! k = fr # rest"
    and flag: "flag (deref s (cur fr)) = 0"
  shows "cur fr = Slot k" and "rest = []"
proof -
  note t = stack_inv_top [OF wf_stack_inv [OF wf k] st]
  from t(1) flag show c: "cur fr = Slot k"
    by (cases "cur fr") (auto simp add: frame_inv_def)
  from t(6) c show "rest = []"
    by (cases rest) auto
qed

lemma nested_frame:
  assumes wf: "wellformed E s" and k: "k < MAXTHRDS" and st: "stacks s ! k = fr # rest"
    and flag: "flag (deref s (cur fr)) \<noteq> 0"
  shows "0 < flag (deref s (cur fr))" and "rest \<noteq> []"
proof -
  note t = stack_inv_top [OF wf_stack_inv [OF wf k] st]
  from t(1) flag obtain td where c: "cur fr = Local td" and p: "0 < flag td"
    by (cases "cur fr") (auto simp add: frame_inv_def)
  then show "0 < flag (deref s (cur fr))" by simp
  from t(5) c show "rest \<noteq> []" by auto
qed

text \<open>
  Claim C3. In a state reached by the walk, for the innermost invocation of the thread
  on slot \<open>k\<close>: when \<open>opendir\<close> fails it goes to the clean-up block (and logs nothing but
  the failed \<open>opendir\<close>). At the clean-up block an invocation with \<open>flag = 0\<close> flushes
  cell \<open>k\<close> (the bytes of a non-empty cell go to the open sink, raw or through the
  compressor) and touches neither \<open>ThreadCNT\<close> nor \<open>tdslot\<close>; only in its next action, with
  the cell empty, does it decrement \<open>ThreadCNT\<close>, store \<open>-1\<close> in the \<open>THRDid\<close> of its slot
  and end the thread, in one action (the critical section of \<open>mutexFD\<close>). An invocation
  with \<open>flag \<noteq> 0\<close> has \<open>flag > 0\<close> and returns to its caller: nothing but the call stack
  changes.
\<close>

theorem cleanup_by_role:
  assumes wf: "wellformed E s" and k: "k < MAXTHRDS" and st: "stacks s ! k = fr # rest"
  shows "(pc fr = AtOpen \<and> fs_opendir E (dname (deref s (cur fr))) = None \<longrightarrow>
            step E k s = (log_event (EvOpendir (dname (deref s (cur fr))) False) s)
                           \<lparr>stacks := (stacks s)[k := fr\<lparr>pc := AtCleanup\<rparr> # rest]\<rparr>)
       \<and> (pc fr = AtCleanup \<and> flag (deref s (cur fr)) = 0 \<longrightarrow>
            step E k s = flush_buffer E k (s\<lparr>stacks := (stacks s)[k := fr\<lparr>pc := AtRelease\<rparr> # rest]\<rparr>)
            \<and> ThreadCNT (step E k s) = ThreadCNT s
            \<and> tdslot (step E k s) = tdslot s
            \<and> used (buffers (step E k s) ! k) = 0
            \<and> (used (buffers s ! k) \<noteq> 0 \<and> output_file s = Some f \<and> \<not> fclosed f \<longrightarrow>
                 (let bytes = take (used (buffers s ! k)) (csv_buffer (buffers s ! k)) in
                  case (if have_zstd E then zstd_stream s else None) of
                    None \<Rightarrow>
                      output_file (step E k s) = Some (fwrite bytes f)
                      \<and> trace (step E k s) = trace s @ [EvFlush k bytes, EvFwrite bytes]
                  | Some z \<Rightarrow>
                      output_file (step E k s) = Some (fwrite (zstd_out E z bytes False) f)
                      \<and> trace (step E k s)
                           = trace s @ [EvFlush k bytes, EvCompress bytes (zstd_out E z bytes False),
                                        EvFwrite (zstd_out E z bytes False)])))
       \<and> (pc fr = AtRelease \<longrightarrow>
            used (buffers s ! k) = 0
            \<and> step E k s = s\<lparr>ThreadCNT := ThreadCNT s - 1,
                               tdslot := (tdslot s)[k := (tdslot s ! k)\<lparr>THRDid := - 1\<rparr>],
                               stacks := (stacks s)[k := []]\<rparr>)
       \<and> (pc fr = AtCleanup \<and> flag (deref s (cur fr)) \<noteq> 0 \<longrightarrow>
            0 < flag (deref s (cur fr))
            \<and> step E k s = s\<lparr>stacks := (stacks s)[k := rest]\<rparr>)"
proof -
  note sz = wf_sizes [OF wf]
  note t = stack_inv_top [OF wf_stack_inv [OF wf k] st]
  have kl: "k < length (stacks s)" using sz k by simp
  have buf: "buf (deref s (cur fr)) = k"
    using t(1) by (simp add: frame_inv_def)
  have a: "step E k s = (log_event (EvOpendir (dname (deref s (cur fr))) False) s)
                           \<lparr>stacks := (stacks s)[k := fr\<lparr>pc := AtCleanup\<rparr> # rest]\<rparr>"
    if "pc fr = AtOpen" "fs_opendir E (dname (deref s (cur fr))) = None"
    using that by (simp add: step_top [OF kl st] traverse_open_def set_stack_def log_event_def)
  have b: "step E k s = flush_buffer E k (s\<lparr>stacks := (stacks s)[k := fr\<lparr>pc := AtRelease\<rparr> # rest]\<rparr>)"
    if "pc fr = AtCleanup" "flag (deref s (cur fr)) = 0"
    using that buf by (simp add: step_top [OF kl st] traverse_cleanup_def set_stack_def)
  have b': "ThreadCNT (step E k s) = ThreadCNT s" "tdslot (step E k s) = tdslot s"
    "used (buffers (step E k s) ! k) = 0"
    if "pc fr = AtCleanup" "flag (deref s (cur fr)) = 0"
    using sz k by (simp_all add: b [OF that])
  have b'': "let bytes = take (used (buffers s ! k)) (csv_buffer (buffers s ! k)) in
             case (if have_zstd E then zstd_stream s else None) of
               None \<Rightarrow>
                 output_file (step E k s) = Some (fwrite bytes f)
                 \<and> trace (step E k s) = trace s @ [EvFlush k bytes, EvFwrite bytes]
             | Some z \<Rightarrow>
                 output_file (step E k s) = Some (fwrite (zstd_out E z bytes False) f)
                 \<and> trace (step E k s)
                      = trace s @ [EvFlush k bytes, EvCompress bytes (zstd_out E z bytes False),
                                   EvFwrite (zstd_out E z bytes False)]"
    if p: "pc fr = AtCleanup" "flag (deref s (cur fr)) = 0"
      and u: "used (buffers s ! k) \<noteq> 0" and o: "output_file s = Some f" "\<not> fclosed f"
  proof -
    let ?s1 = "s\<lparr>stacks := (stacks s)[k := fr\<lparr>pc := AtRelease\<rparr> # rest]\<rparr>"
    have "k < length (buffers ?s1)" "used (buffers ?s1 ! k) \<noteq> 0" "output_file ?s1 = Some f"
      using sz k u o by simp_all
    from flush_buffer_sink [OF this o(2), of E] show ?thesis
      by (simp add: b [OF p] Let_def split: option.split)
  qed
  have c: "step E k s = s\<lparr>ThreadCNT := ThreadCNT s - 1,
                               tdslot := (tdslot s)[k := (tdslot s ! k)\<lparr>THRDid := - 1\<rparr>],
                               stacks := (stacks s)[k := []]\<rparr>"
    if p: "pc fr = AtRelease"
  proof -
    have "flag (deref s (cur fr)) = 0"
      using t(1) p by (simp add: frame_inv_def)
    then have "cur fr = Slot k"
      by (rule thread_frame(1) [OF wf k st])
    with p show ?thesis
      by (simp add: step_top [OF kl st] traverse_release_def upd_slot_def set_stack_def)
  qed
  have d: "step E k s = s\<lparr>stacks := (stacks s)[k := rest]\<rparr>"
    if "pc fr = AtCleanup" "flag (deref s (cur fr)) \<noteq> 0"
    using that by (simp add: step_top [OF kl st] traverse_cleanup_def set_stack_def)
  from t(8) have e: "used (buffers s ! k) = 0" if "pc fr = AtRelease"
    using that by simp
  note g = nested_frame(1) [OF wf k st]
  show ?thesis
    using a b b' b'' c d e g by blast
qed


theorem cleanup_by_role_witness:
  "stacks (step demo_sys 0 (demo_walk ''/t/a.txt'')) ! 0 = [(new_frame (Slot 0))\<lparr>pc := AtCleanup\<rparr>]
   \<and> trace (step demo_sys 0 (demo_walk ''/t/a.txt'')) = [EvFwrite header, EvOpendir ''/t/a.txt'' False]
   \<and> used (buffers (run demo_sys [0, 0, 0, 0] (demo_walk ''/e'')) ! 0) = 49
   \<and> ThreadCNT (step demo_sys 0 (run demo_sys [0, 0, 0, 0] (demo_walk ''/e''))) = 1
   \<and> THRDid (tdslot (step demo_sys 0 (run demo_sys [0, 0, 0, 0] (demo_walk ''/e''))) ! 0) = 0
   \<and> used (buffers (step demo_sys 0 (run demo_sys [0, 0, 0, 0] (demo_walk ''/e''))) ! 0) = 0
   \<and> map_option fdata (output_file (step demo_sys 0 (run demo_sys [0, 0, 0, 0] (demo_walk ''/e''))))
       = Some (header @ ''300,0,-1,'' @ [dquote] @ ''e'' @ [dquote] @ '','' @ [dquote] @ [dquote] @
               '',7,7,4096,1,8,1,'' @ [dquote] @ ''40755'' @ [dquote] @ '',5,5,5,0,0'' @ [newline])
   \<and> trace (step demo_sys 0 (run demo_sys [0, 0, 0, 0] (demo_walk ''/e'')))
       = trace (run demo_sys [0, 0, 0, 0] (demo_walk ''/e''))
         @ [EvFlush 0 (''300,0,-1,'' @ [dquote] @ ''e'' @ [dquote] @ '','' @ [dquote] @ [dquote] @
               '',7,7,4096,1,8,1,'' @ [dquote] @ ''40755'' @ [dquote] @ '',5,5,5,0,0'' @ [newline]),
            EvFwrite (''300,0,-1,'' @ [dquote] @ ''e'' @ [dquote] @ '','' @ [dquote] @ [dquote] @
               '',7,7,4096,1,8,1,'' @ [dquote] @ ''40755'' @ [dquote] @ '',5,5,5,0,0'' @ [newline])]
   \<and> ThreadCNT (step demo_sys 0 (run demo_sys [0, 0, 0, 0, 0] (demo_walk ''/e''))) = 0
   \<and> THRDid (tdslot (step demo_sys 0 (run demo_sys [0, 0, 0, 0, 0] (demo_walk ''/e''))) ! 0) = - 1
   \<and> stacks (step demo_sys 0 (run demo_sys [0, 0, 0, 0, 0] (demo_walk ''/e''))) ! 0 = []
   \<and> stacks (run demo_sys pool_schedule (demo_walk ''/p'')) ! 0 = [pool_nested, pool_root]
   \<and> step demo_sys 0 (run demo_sys pool_schedule (demo_walk ''/p''))
       = (run demo_sys pool_schedule (demo_walk ''/p''))
           \<lparr>stacks := (stacks (run demo_sys pool_schedule (demo_walk ''/p'')))[0 := [pool_root]]\<rparr>
   \<and> ThreadCNT (step demo_sys 0 (run demo_sys pool_schedule (demo_walk ''/p''))) = 32"
proof -
  let ?A = "demo_walk ''/t/a.txt''"
  let ?B = "run demo_sys [0, 0, 0, 0] (demo_walk ''/e'')"
  let ?C = "run demo_sys [0, 0, 0, 0, 0] (demo_walk ''/e'')"
  let ?D = "run demo_sys pool_schedule (demo_walk ''/p'')"
  let ?fe = "\<lparr>cur = Slot 0, pc = AtCleanup, dirp = \<lparr>d_ents = [''.'', ''..''], d_pos = 2\<rparr>,
              localCnt = 0, localSz = 0\<rparr>"
  have k: "0 < MAXTHRDS" by (simp add: MAXTHRDS_def)
  have wfA: "wellformed demo_sys ?A"
    using demo_walk_wf [of "''/t/a.txt''" "[]"] by (simp add: demo_defs)
  have wfB: "wellformed demo_sys ?B" and wfC: "wellformed demo_sys ?C"
    by (rule demo_walk_wf, simp add: demo_defs)+
  have pcs: "pc (new_frame (Slot 0)) = AtOpen" "pc ?fe = AtCleanup" "pc (?fe\<lparr>pc := AtRelease\<rparr>) = AtRelease"
    "pc pool_nested = AtCleanup"
    by (simp_all add: new_frame_def pool_nested_def)
  have wfD: "wellformed demo_sys ?D"
    by (rule demo_walk_wf) (simp add: demo_defs)
  note D = demo_saturated [unfolded Let_def]
  note stD = D [THEN conjunct1]
  have flagD: "flag (deref ?D (cur pool_nested)) \<noteq> 0"
    by (simp add: pool_nested_def)
  have stA: "stacks ?A ! 0 = [new_frame (Slot 0)]"
    and A: "fs_opendir demo_sys (dname (deref ?A (cur (new_frame (Slot 0))))) = None"
    "trace ?A = [EvFwrite header]" "dname (deref ?A (cur (new_frame (Slot 0)))) = ''/t/a.txt''"
    "length (stacks ?A) = 32"
    by (simp_all add: model_defs demo_defs cong: let_weak_cong)
  have stB: "stacks ?B ! 0 = [?fe]"
    and B: "flag (deref ?B (cur ?fe)) = 0" "ThreadCNT ?B = 1" "THRDid (tdslot ?B ! 0) = 0"
    "used (buffers ?B ! 0) = 49"
    by (simp_all add: model_defs demo_defs cong: let_weak_cong)
  have outB: "map_option fdata (output_file (step demo_sys 0 ?B))
       = Some (header @ ''300,0,-1,'' @ [dquote] @ ''e'' @ [dquote] @ '','' @ [dquote] @ [dquote] @
               '',7,7,4096,1,8,1,'' @ [dquote] @ ''40755'' @ [dquote] @ '',5,5,5,0,0'' @ [newline])"
    by (simp add: model_defs demo_defs cong: let_weak_cong)
  have stC: "stacks ?C ! 0 = [?fe\<lparr>pc := AtRelease\<rparr>]"
    and C: "ThreadCNT ?C = 1" "length (tdslot ?C) = 32" "length (stacks ?C) = 32"
    by (simp_all add: model_defs demo_defs cong: let_weak_cong)
  note a = cleanup_by_role [OF wfA k stA, THEN conjunct1, THEN mp, OF conjI [OF pcs(1) A(1)]]
  have a1: "stacks (step demo_sys 0 ?A) ! 0 = [(new_frame (Slot 0))\<lparr>pc := AtCleanup\<rparr>]"
    and a2: "trace (step demo_sys 0 ?A) = [EvFwrite header, EvOpendir ''/t/a.txt'' False]"
    by (simp_all add: a A(2,3,4))
  note b = cleanup_by_role [OF wfB k stB, THEN conjunct2, THEN conjunct1, THEN mp, OF conjI [OF pcs(2) B(1)]]
  have b1: "ThreadCNT (step demo_sys 0 ?B) = 1"
    using b [THEN conjunct2, THEN conjunct1] B(2) by simp
  have b2: "THRDid (tdslot (step demo_sys 0 ?B) ! 0) = 0"
    using b [THEN conjunct2, THEN conjunct2, THEN conjunct1] B(3) by simp
  note b3 = b [THEN conjunct2, THEN conjunct2, THEN conjunct2, THEN conjunct1]
  have sinkB: "used (buffers ?B ! 0) \<noteq> 0"
    "output_file ?B = Some \<lparr>fdata = header, fcap = 100000, ferror = False, fclosed = False\<rparr>"
    "\<not> fclosed \<lparr>fdata = header, fcap = 100000, ferror = False, fclosed = False\<rparr>"
    and rawB: "zstd_stream ?B = None" "have_zstd demo_sys"
    and cellB: "take (used (buffers ?B ! 0)) (csv_buffer (buffers ?B ! 0)) = ''300,0,-1,'' @ [dquote] @ ''e'' @ [dquote] @ '','' @ [dquote] @ [dquote] @
               '',7,7,4096,1,8,1,'' @ [dquote] @ ''40755'' @ [dquote] @ '',5,5,5,0,0'' @ [newline]"
    by (simp_all add: model_defs demo_defs cong: let_weak_cong)
  have b4: "trace (step demo_sys 0 ?B) = trace ?B @ [EvFlush 0 (''300,0,-1,'' @ [dquote] @ ''e'' @ [dquote] @ '','' @ [dquote] @ [dquote] @
               '',7,7,4096,1,8,1,'' @ [dquote] @ ''40755'' @ [dquote] @ '',5,5,5,0,0'' @ [newline]),
            EvFwrite (''300,0,-1,'' @ [dquote] @ ''e'' @ [dquote] @ '','' @ [dquote] @ [dquote] @
               '',7,7,4096,1,8,1,'' @ [dquote] @ ''40755'' @ [dquote] @ '',5,5,5,0,0'' @ [newline])]"
    using b [THEN conjunct2, THEN conjunct2, THEN conjunct2, THEN conjunct2, THEN mp,
        OF conjI [OF sinkB(1) conjI [OF sinkB(2,3)]], unfolded Let_def cellB]
    by (simp add: rawB del: run.simps)
  note c = cleanup_by_role [OF wfC k stC, THEN conjunct2, THEN conjunct2, THEN conjunct1, THEN mp, OF pcs(3)]
  have c1: "ThreadCNT (step demo_sys 0 ?C) = 0"
    and c2: "THRDid (tdslot (step demo_sys 0 ?C) ! 0) = - 1"
    and c3: "stacks (step demo_sys 0 ?C) ! 0 = []"
    using c [THEN conjunct2] C by simp_all
  note d = cleanup_by_role [OF wfD k stD, THEN conjunct2, THEN conjunct2, THEN conjunct2, THEN mp,
      OF conjI [OF pcs(4) flagD], THEN conjunct2]
  have d2: "ThreadCNT (step demo_sys 0 ?D) = 32"
    using D [THEN conjunct2, THEN conjunct1] by (simp add: d)
  show ?thesis
    by (intro conjI; fact a1 a2 B(4) b1 b2 b3 b4 outB c1 c2 c3 stD d d2)
qed


subsection \<open>Entries the loop skips\<close>

text \<open>
  Claim C5. In a state reached by the walk, let the innermost invocation of a thread be
  inside its loop and let \<open>readdir\<close> return the entry \<open>d\<close>. If \<open>d\<close> is \<open>.\<close> or \<open>..\<close>, or
  is \<open>.snapshot\<close> while \<open>SNAPSHOT\<close> is set, or \<open>lstat\<close> of the composed path fails, the
  action changes nothing but the position of the directory stream: no record, no
  counter, no cell, no slot. In every other case (so for \<open>.snapshot\<close> when \<open>SNAPSHOT\<close> is
  clear) the entry is counted: the invocation goes on with \<open>localCnt\<close> one higher,
  possibly below a callee.
\<close>

theorem skipped_entries:
  assumes wf: "wellformed E s" and k: "k < MAXTHRDS" and st: "stacks s ! k = fr # rest"
    and pc: "pc fr = InLoop" and rd: "readdir (dirp fr) = Some (d, dp)"
  shows "(d = ''.'' \<or> d = ''..'' \<or> (SNAPSHOT s \<noteq> 0 \<and> d = ''.snapshot'')
            \<or> fs_lstat E (fullpath_of (dname (deref s (cur fr))) d) = None \<longrightarrow>
          step E k s = s\<lparr>stacks := (stacks s)[k := fr\<lparr>dirp := dp\<rparr> # rest]\<rparr>)
       \<and> (d \<noteq> ''.'' \<and> d \<noteq> ''..'' \<and> \<not> (SNAPSHOT s \<noteq> 0 \<and> d = ''.snapshot'')
            \<and> fs_lstat E (fullpath_of (dname (deref s (cur fr))) d) \<noteq> None \<longrightarrow>
          (\<exists>callee fr'. stacks (step E k s) ! k = callee @ fr' # rest
              \<and> dirp fr' = dp \<and> localCnt fr' = localCnt fr + 1))"
proof -
  note sz = wf_sizes [OF wf]
  note inv = wf_stack_inv [OF wf k]
  note t = stack_inv_top [OF inv st]
  let ?c = "deref s (cur fr)"
  let ?fr0 = "fr\<lparr>dirp := dp\<rparr>"
  let ?path = "fullpath_of (dname ?c) d"
  have kl: "k < length (stacks s)" using sz k by simp
  have stp: "step E k s = loop_body E k ?fr0 rest d s"
    using pc rd by (simp add: step_top [OF kl st] traverse_loop_def)
  have cnt: "counted E (SNAPSHOT s) (dname ?c) d \<longleftrightarrow>
               d \<noteq> ''.'' \<and> d \<noteq> ''..'' \<and> \<not> (SNAPSHOT s \<noteq> 0 \<and> d = ''.snapshot'')
               \<and> fs_lstat E ?path \<noteq> None"
    by (simp add: counted_def)
  have skip: "step E k s = s\<lparr>stacks := (stacks s)[k := ?fr0 # rest]\<rparr>"
    if "\<not> counted E (SNAPSHOT s) (dname ?c) d"
    using that by (simp add: stp loop_body_skip set_stack_def)
  have take: "\<exists>callee fr'. stacks (step E k s) ! k = callee @ fr' # rest
              \<and> dirp fr' = dp \<and> localCnt fr' = localCnt fr + 1"
    if c: "counted E (SNAPSHOT s) (dname ?c) d"
  proof -
    from c obtain f where f: "fs_lstat E ?path = Some f"
      by (auto simp add: counted_def)
    show ?thesis
    proof (cases "S_ISDIR (st_mode f)")
      case False
      let ?fr2 = "?fr0\<lparr>localCnt := localCnt ?fr0 + 1, localSz := localSz ?fr0 + st_size f\<rparr>"
      have "stacks (step E k s) ! k = [] @ ?fr2 # rest"
        using c f False kl by (simp add: stp loop_body_file)
      then show ?thesis by (intro exI [of _ "[]"] exI [of _ ?fr2]) simp
    next
      case True
      let ?fr1 = "?fr0\<lparr>localCnt := localCnt ?fr0 + 1\<rparr>"
      have fo: "step E k s = fan_out E k ?fr1 rest ?path f s"
        using c f True by (simp add: stp loop_body_dir)
      show ?thesis
      proof (cases "claimed s")
        case False
        then obtain new where "stacks (step E k s) ! k = [new] @ ?fr1 # rest"
          using kl by (simp add: fo fan_out_local)
        then show ?thesis by (intro exI [of _ "[new]"] exI [of _ ?fr1]) simp
      next
        case cl: True
        define j where "j = find_slot (tdslot s) 0"
        have jm: "j < MAXTHRDS"
          using cl by (simp add: claimed_def j_def)
        have "stacks s ! j = []"
          using wf jm find_slot_free [of "tdslot s" 0] jm unfolding j_def by (intro free_slot_idle) simp_all
        then have kj: "k \<noteq> j" using st by auto
        have sl: "i = k" if "cur ?fr1 = Slot i" for i
          using that frame_inv_Slot [OF t(1), of i] by simp
        have id: "THRDid (deref s (cur ?fr1)) < totalTHRDS s"
          using t(1,4) by (simp add: frame_inv_def)
        note eq = fan_out_claimed [OF cl j_def sz(1) sl kj id, of E rest ?path f]
        have "stacks (fan_out E k ?fr1 rest ?path f s) ! k = [] @ ?fr1 # rest"
          using kl kj by (subst eq) simp_all
        then have "stacks (step E k s) ! k = [] @ ?fr1 # rest"
          by (simp only: fo)
        then show ?thesis by (intro exI [of _ "[]"] exI [of _ ?fr1]) simp
      qed
    qed
  qed
  from skip take cnt show ?thesis by blast
qed

theorem skipped_entries_witness:
  "step demo_sys 0 (run demo_sys [0] (demo_start 1))
     = (run demo_sys [0] (demo_start 1))
         \<lparr>stacks := (stacks (run demo_sys [0] (demo_start 1)))[0 := [demo_frame 1 0 0]]\<rparr>
   \<and> step demo_sys 0 (run demo_sys [0, 0, 0] (demo_start 1))
     = (run demo_sys [0, 0, 0] (demo_start 1))
         \<lparr>stacks := (stacks (run demo_sys [0, 0, 0] (demo_start 1)))[0 := [demo_frame 3 0 0]]\<rparr>
   \<and> (\<exists>callee fr'. stacks (step demo_sys 0 (run demo_sys [0, 0, 0] (demo_start 0))) ! 0 = callee @ [fr']
          \<and> dirp fr' = dirp (demo_frame 3 0 0) \<and> localCnt fr' = 1)
   \<and> step demo_sys 0 (run demo_sys [0, 0, 0, 0, 0, 0] (demo_start 1))
     = (run demo_sys [0, 0, 0, 0, 0, 0] (demo_start 1))
         \<lparr>stacks := (stacks (run demo_sys [0, 0, 0, 0, 0, 0] (demo_start 1)))[0 := [demo_frame 6 2 10]]\<rparr>"
proof -
  have k: "0 < MAXTHRDS" by (simp add: MAXTHRDS_def)
  have pc: "pc (demo_frame n c z) = InLoop" for n c z
    by (simp add: demo_frame_def)
  have rd: "readdir (dirp (demo_frame 0 0 0)) = Some (''.'', dirp (demo_frame 1 0 0))"
    "readdir (dirp (demo_frame 2 0 0)) = Some (''.snapshot'', dirp (demo_frame 3 0 0))"
    "readdir (dirp (demo_frame 5 2 10)) = Some (''gone'', dirp (demo_frame 6 2 10))"
    by (simp_all add: demo_frame_def readdir_def)
  have upd: "(demo_frame n c z)\<lparr>dirp := dirp (demo_frame m c' z')\<rparr> = demo_frame m c z" for n m c c' z z'
    by (simp add: demo_frame_def)
  have gone: "fs_lstat demo_sys (fullpath_of ''/t'' ''gone'') = None"
    by (simp add: demo_defs fullpath_of_def MAXPATH_def)
  have snap: "fs_lstat demo_sys (fullpath_of ''/t'' ''.snapshot'') \<noteq> None"
    by (simp add: demo_defs fullpath_of_def MAXPATH_def)
  have cur: "cur (demo_frame n c z) = Slot 0" for n c z
    by (simp add: demo_frame_def)
  from skipped_entries [OF demo_start_wf k demo_stack_1 pc rd(1), of 1]
  have a: "step demo_sys 0 (run demo_sys [0] (demo_start 1))
     = (run demo_sys [0] (demo_start 1))
         \<lparr>stacks := (stacks (run demo_sys [0] (demo_start 1)))[0 := [demo_frame 1 0 0]]\<rparr>"
    by (simp add: upd del: run.simps)
  from skipped_entries [OF demo_start_wf k demo_stack_3 pc rd(2), of 1]
  have b: "step demo_sys 0 (run demo_sys [0, 0, 0] (demo_start 1))
     = (run demo_sys [0, 0, 0] (demo_start 1))
         \<lparr>stacks := (stacks (run demo_sys [0, 0, 0] (demo_start 1)))[0 := [demo_frame 3 0 0]]\<rparr>"
    by (simp add: upd demo_snapshot del: run.simps)
  from skipped_entries [OF demo_start_wf k demo_stack_3 pc rd(2), of 0] snap
  have c: "\<exists>callee fr'. stacks (step demo_sys 0 (run demo_sys [0, 0, 0] (demo_start 0))) ! 0 = callee @ [fr']
          \<and> dirp fr' = dirp (demo_frame 3 0 0) \<and> localCnt fr' = 1"
    by (simp add: demo_snapshot cur demo_dname_3 demo_frame_def del: run.simps)
  from skipped_entries [OF demo_start_wf k demo_stack_6 pc rd(3)] gone
  have d: "step demo_sys 0 (run demo_sys [0, 0, 0, 0, 0, 0] (demo_start 1))
     = (run demo_sys [0, 0, 0, 0, 0, 0] (demo_start 1))
         \<lparr>stacks := (stacks (run demo_sys [0, 0, 0, 0, 0, 0] (demo_start 1)))[0 := [demo_frame 6 2 10]]\<rparr>"
    by (simp add: upd cur demo_dname_6 del: run.simps)
  from a b c d show ?thesis by blast
qed

subsection \<open>The aggregates of a summary record\<close>

lemma step_SNAPSHOT [simp]: "SNAPSHOT (step E k s) = SNAPSHOT s"
  by (simp add: step_def traverse_open_def traverse_loop_def loop_body_def
      traverse_cleanup_def traverse_release_def Let_def
      split: list.split ppoint.split option.split tdref.split)

lemma run_SNAPSHOT [simp]: "SNAPSHOT (run E ks s) = SNAPSHOT s"
  by (induction ks arbitrary: s) simp_all

lemma io_summary_ok [simp]: "is_io e \<Longrightarrow> summary_ok E snap e"
  by (cases e) simp_all

lemma io_summary_after [simp]: "is_io e \<Longrightarrow> summary_after E snap before e"
  by (cases e) simp_all





subsection \<open>Directories opened and directories summarised\<close>

lemma inloop_dirs_cong:
  assumes "\<forall>fr \<in> set fs. pc fr = InLoop \<longrightarrow> deref s' (cur fr) = deref s (cur fr)"
  shows "inloop_dirs s' fs = inloop_dirs s fs"
  using assms by (induction fs) (simp_all add: inloop_dirs_def)

lemma inloop_dirs_simps [simp]:
  "inloop_dirs s [] = []"
  "inloop_dirs s (fr # fs) = (if pc fr = InLoop then dname (deref s (cur fr)) # inloop_dirs s fs else inloop_dirs s fs)"
  by (simp_all add: inloop_dirs_def)

lemma inloop_dirs_same: "tdslot s' = tdslot s \<Longrightarrow> inloop_dirs s' fs = inloop_dirs s fs"
  by (rule inloop_dirs_cong) (simp add: deref_same [of s' s])

lemma inloop_dirs_same_fun: "tdslot s' = tdslot s \<Longrightarrow> inloop_dirs s' = inloop_dirs s"
  by (rule ext) (rule inloop_dirs_same)

lemma open_frames_same: "stacks s' = stacks s \<Longrightarrow> tdslot s' = tdslot s \<Longrightarrow> open_frames s' = open_frames s"
  by (simp add: open_frames_def inloop_dirs_same_fun [of s' s])









lemma inloop_dirs_updates [simp]:
  "inloop_dirs (log_event e s) = inloop_dirs s"
  "inloop_dirs (set_stack k fs s) = inloop_dirs s"
  "inloop_dirs (write_record E b path st pino dep fc ds s) = inloop_dirs s"
  "inloop_dirs (flush_buffer E b s) = inloop_dirs s"
  by (rule inloop_dirs_same_fun, simp)+

lemma open_frames_updates [simp]:
  "open_frames (log_event e s) = open_frames s"
  "open_frames (write_record E b path st pino dep fc ds s) = open_frames s"
  "open_frames (flush_buffer E b s) = open_frames s"
  by (rule open_frames_same, simp, simp)+




lemma dirs_append [simp]:
  "opened_dirs (tr @ ev) = opened_dirs tr @ opened_dirs ev"
  "summary_dirs (tr @ ev) = summary_dirs tr @ summary_dirs ev"
  by (simp_all add: opened_dirs_def summary_dirs_def)

lemma dirs_single [simp]:
  "opened_dirs [e] = opened_of e" "summary_dirs [e] = summary_of e"
  "opened_dirs [] = []" "summary_dirs [] = []"
  by (simp_all add: opened_dirs_def summary_dirs_def)





subsection \<open>The counter of the running threads\<close>



lemma running_same [simp]:
  "running (log_event e s) = running s"
  "running (write_record E b path st pino dep fc ds s) = running s"
  "running (flush_buffer E b s) = running s"
  by (simp_all add: running_def)






subsection \<open>One summary record for every directory opened\<close>









end
